theory Spec2Isabelle
  imports Complex_Main
begin

section \<open>JavaScript values\<close>

text \<open>
  The source is TypeScript (\<^verbatim>\<open>wav_renderer.ts\<close>): \<^verbatim>\<open>normalizeArray\<close> and
  \<^verbatim>\<open>WavRenderer.drawSpeechVisual\<close>.

  A JavaScript number is modelled as \<open>jsnum\<close>: \<open>NaN\<close>, the two infinities, or a
  finite value, which is a real; \<open>-0\<close> is identified with \<open>+0\<close>. The rounding of IEEE
  doubles is modelled where it decides which samples are combined: the index of line 32
  is computed with the rounding of binary64 (section \<open>Rounding\<close>). The values computed
  from the samples (sums, quotients, interpolated values) and the source position of
  line 48 are taken exact: doubles round them, and that rounding and overflow are not
  modelled. Everything else follows ECMAScript: \<open>NaN\<close> is absorbing, \<open>Infinity * 0\<close>,
  \<open>Infinity - Infinity\<close> and \<open>0 / 0\<close> are \<open>NaN\<close>, and every comparison with \<open>NaN\<close> is
  false. An array element is a \<open>jsval\<close>: a number or \<^verbatim>\<open>undefined\<close> (a hole of
  \<^verbatim>\<open>new Array(m)\<close> reads as \<^verbatim>\<open>undefined\<close>).
\<close>

datatype jsnum = NaN | PInf | NInf | Fin real

datatype jsval = Undefined | Number jsnum

text \<open>
  The only exception the code can raise: \<^verbatim>\<open>new Array(m)\<close> with a length that is not
  an integer from 0 to \<open>2^32 - 1\<close>.
\<close>

datatype error = RangeError

fun ToNumber :: "jsval \<Rightarrow> jsnum" where
  "ToNumber Undefined = NaN"
| "ToNumber (Number x) = x"

fun jadd :: "jsnum \<Rightarrow> jsnum \<Rightarrow> jsnum" where
  "jadd NaN y = NaN"
| "jadd x NaN = NaN"
| "jadd PInf NInf = NaN"
| "jadd NInf PInf = NaN"
| "jadd PInf y = PInf"
| "jadd x PInf = PInf"
| "jadd NInf y = NInf"
| "jadd x NInf = NInf"
| "jadd (Fin a) (Fin b) = Fin (a + b)"

fun jneg :: "jsnum \<Rightarrow> jsnum" where
  "jneg NaN = NaN"
| "jneg PInf = NInf"
| "jneg NInf = PInf"
| "jneg (Fin a) = Fin (- a)"

definition jsub :: "jsnum \<Rightarrow> jsnum \<Rightarrow> jsnum" where
  "jsub x y = jadd x (jneg y)"

fun jmul :: "jsnum \<Rightarrow> jsnum \<Rightarrow> jsnum" where
  "jmul NaN y = NaN"
| "jmul x NaN = NaN"
| "jmul PInf PInf = PInf"
| "jmul PInf NInf = NInf"
| "jmul NInf PInf = NInf"
| "jmul NInf NInf = PInf"
| "jmul PInf (Fin b) = (if b = 0 then NaN else if 0 < b then PInf else NInf)"
| "jmul NInf (Fin b) = (if b = 0 then NaN else if 0 < b then NInf else PInf)"
| "jmul (Fin a) PInf = (if a = 0 then NaN else if 0 < a then PInf else NInf)"
| "jmul (Fin a) NInf = (if a = 0 then NaN else if 0 < a then NInf else PInf)"
| "jmul (Fin a) (Fin b) = Fin (a * b)"

text \<open>
  Division. A zero divisor is read as \<open>+0\<close>: the three divisors of the program
  (\<^verbatim>\<open>n\<close>, \<^verbatim>\<open>m - 1\<close> and \<^verbatim>\<open>count[i]\<close>) are never \<open>-0\<close>.
\<close>

fun jdiv :: "jsnum \<Rightarrow> jsnum \<Rightarrow> jsnum" where
  "jdiv NaN y = NaN"
| "jdiv x NaN = NaN"
| "jdiv PInf PInf = NaN"
| "jdiv PInf NInf = NaN"
| "jdiv NInf PInf = NaN"
| "jdiv NInf NInf = NaN"
| "jdiv PInf (Fin b) = (if 0 \<le> b then PInf else NInf)"
| "jdiv NInf (Fin b) = (if 0 \<le> b then NInf else PInf)"
| "jdiv (Fin a) PInf = Fin 0"
| "jdiv (Fin a) NInf = Fin 0"
| "jdiv (Fin a) (Fin b) =
     (if b = 0 then (if a = 0 then NaN else if 0 < a then PInf else NInf)
      else Fin (a / b))"

fun Math_abs :: "jsnum \<Rightarrow> jsnum" where
  "Math_abs NaN = NaN"
| "Math_abs PInf = PInf"
| "Math_abs NInf = PInf"
| "Math_abs (Fin a) = Fin \<bar>a\<bar>"

fun Math_max :: "jsnum \<Rightarrow> jsnum \<Rightarrow> jsnum" where
  "Math_max NaN y = NaN"
| "Math_max x NaN = NaN"
| "Math_max PInf y = PInf"
| "Math_max x PInf = PInf"
| "Math_max NInf y = y"
| "Math_max x NInf = x"
| "Math_max (Fin a) (Fin b) = Fin (max a b)"

fun Math_floor :: "jsnum \<Rightarrow> jsnum" where
  "Math_floor (Fin a) = Fin (of_int \<lfloor>a\<rfloor>)"
| "Math_floor x = x"

fun Math_ceil :: "jsnum \<Rightarrow> jsnum" where
  "Math_ceil (Fin a) = Fin (of_int \<lceil>a\<rceil>)"
| "Math_ceil x = x"

text \<open>The comparison \<^verbatim>\<open>x >= y\<close>.\<close>

fun jge :: "jsnum \<Rightarrow> jsnum \<Rightarrow> bool" where
  "jge NaN y = False"
| "jge x NaN = False"
| "jge PInf y = True"
| "jge x NInf = True"
| "jge NInf y = False"
| "jge x PInf = False"
| "jge (Fin a) (Fin b) = (b \<le> a)"

text \<open>The loop counters and lengths of the program are integers, used as numbers.\<close>

definition num :: "nat \<Rightarrow> jsnum" where
  "num i = Fin (of_nat i)"

section \<open>Arrays\<close>

text \<open>
  A property key that is a number names an element only when it is a non-negative
  integer; any other key (\<open>NaN\<close>, \<open>-1\<close>, a fraction) names no element.
\<close>

fun array_index :: "jsnum \<Rightarrow> nat option" where
  "array_index (Fin a) = (if 0 \<le> a \<and> a = of_int \<lfloor>a\<rfloor> then Some (nat \<lfloor>a\<rfloor>) else None)"
| "array_index x = None"

text \<open>
  Reading \<^verbatim>\<open>xs[k]\<close>: out of range, or at a key that is no index, the value is
  \<^verbatim>\<open>undefined\<close>. The elements of a \<^verbatim>\<open>Float32Array\<close> are numbers.
\<close>

definition aget :: "jsval list \<Rightarrow> jsnum \<Rightarrow> jsval" where
  "aget xs k =
     (case array_index k of
        None \<Rightarrow> Undefined
      | Some i \<Rightarrow> if i < length xs then xs ! i else Undefined)"

definition f32get :: "jsnum list \<Rightarrow> jsnum \<Rightarrow> jsval" where
  "f32get data k =
     (case array_index k of
        None \<Rightarrow> Undefined
      | Some i \<Rightarrow> if i < length data then Number (data ! i) else Undefined)"

text \<open>
  Writing \<^verbatim>\<open>xs[k] = v\<close> on an \<^verbatim>\<open>Array\<close>: an index beyond the end extends the array,
  the new elements in between being holes. A key that is no index sets a named property
  and leaves the elements and the length as they are.
\<close>

definition aset :: "jsval list \<Rightarrow> jsnum \<Rightarrow> jsval \<Rightarrow> jsval list" where
  "aset xs k v =
     (case array_index k of
        None \<Rightarrow> xs
      | Some i \<Rightarrow>
          if i < length xs then xs[i := v]
          else xs @ replicate (i - length xs) Undefined @ [v])"

section \<open>Rounding\<close>

text \<open>
  JavaScript numbers are IEEE 754 binary64 values, and each arithmetic operation rounds
  its exact result to the nearest such value, ties to the one with an even significand.
  \<open>binary64\<close> is that rounding for a result in the normal range (53 significant bits;
  no overflow, no subnormal result), and \<open>round64\<close> applies it to the finite results.
  The quotient and the product of line 32 are in that range: with \<open>m \<le> n\<close> and a
  buffer of fewer than \<open>2^53\<close> samples they are 0 or lie between \<open>2^-53\<close> and \<open>2^53\<close>,
  and the integers up to \<open>2^53\<close> are binary64 values. \<open>binary32\<close> is the same rounding to
  24 significant bits, which a \<^verbatim>\<open>Float32Array\<close> applies to a number stored in it.
\<close>

definition round_half_even :: "real \<Rightarrow> int" where
  "round_half_even q =
     (let f = \<lfloor>q\<rfloor>
      in if q - of_int f < 1 / 2 then f
         else if 1 / 2 < q - of_int f then f + 1
         else if even f then f else f + 1)"

definition binary64 :: "real \<Rightarrow> real" where
  "binary64 x =
     (if x = 0 then 0
      else (let e = \<lfloor>log 2 \<bar>x\<bar>\<rfloor>;
                u = 2 powr (of_int e - 52)
            in of_int (round_half_even (x / u)) * u))"

fun round64 :: "jsnum \<Rightarrow> jsnum" where
  "round64 (Fin a) = Fin (binary64 a)"
| "round64 x = x"

definition binary32 :: "real \<Rightarrow> real" where
  "binary32 x =
     (if x = 0 then 0
      else (let e = \<lfloor>log 2 \<bar>x\<bar>\<rfloor>;
                u = 2 powr (of_int e - 23)
            in of_int (round_half_even (x / u)) * u))"

section \<open>normalizeArray: the computation\<close>

text \<open>
  The body of the downsampling loop (source lines 31 to 40), at counter \<open>i\<close>, on the
  pair of the arrays \<^verbatim>\<open>result\<close> and \<^verbatim>\<open>count\<close>. Line 32 is
  \<^verbatim>\<open>Math.floor(i * (m / n))\<close>: the quotient is rounded, and so is its product with
  \<open>i\<close>; the integers \<open>i\<close>, \<open>m\<close> and \<open>n\<close> are binary64 values themselves.
\<close>

definition downsample_step ::
  "jsnum list \<Rightarrow> int \<Rightarrow> bool \<Rightarrow> nat \<Rightarrow> jsval list \<times> jsval list \<Rightarrow> jsval list \<times> jsval list" where
  "downsample_step data m downsamplePeaks i rc =
     (let n = length data;
          result = fst rc;
          count = snd rc;
          index = Math_floor (round64 (jmul (num i) (round64 (jdiv (Fin (of_int m)) (num n)))));
          sample = Math_abs (ToNumber (f32get data (num i)));
          result' =
            (if downsamplePeaks
             then aset result index (Number (Math_max (ToNumber (aget result index)) sample))
             else aset result index (Number (jadd (ToNumber (aget result index)) sample)));
          count' = aset count index (Number (jadd (ToNumber (aget count index)) (Fin 1)))
      in (result', count'))"

text \<open>The body of the loop that divides each sum by its count (source lines 42 to 44).\<close>

definition average_step :: "jsval list \<Rightarrow> nat \<Rightarrow> jsval list \<Rightarrow> jsval list" where
  "average_step count i result =
     aset result (num i)
       (Number (jdiv (ToNumber (aget result (num i))) (ToNumber (aget count (num i)))))"

text \<open>
  The body of the upsampling loop (source lines 47 to 57): both branches of its
  conditional assign to \<^verbatim>\<open>result[i]\<close>; \<open>upsample_value\<close> is the value assigned.
\<close>

definition upsample_value :: "jsnum list \<Rightarrow> int \<Rightarrow> nat \<Rightarrow> jsval" where
  "upsample_value data m i =
     (let n = length data;
          index = jdiv (jmul (num i) (jsub (num n) (Fin 1))) (jsub (Fin (of_int m)) (Fin 1));
          low = Math_floor index;
          high = Math_ceil index;
          t = jsub index low
      in if jge high (num n)
         then f32get data (jsub (num n) (Fin 1))
         else Number (jadd (jmul (ToNumber (f32get data low)) (jsub (Fin 1) t))
                           (jmul (ToNumber (f32get data high)) t)))"

definition upsample_step :: "jsnum list \<Rightarrow> int \<Rightarrow> nat \<Rightarrow> jsval list \<Rightarrow> jsval list" where
  "upsample_step data m i result = aset result (num i) (upsample_value data m i)"

text \<open>
  Source lines 25 to 58: the array that \<^verbatim>\<open>normalizeArray\<close> computes when it does not
  answer from the cache. The target length \<open>m\<close> is an integer; \<^verbatim>\<open>new Array(m)\<close> raises
  \<^verbatim>\<open>RangeError\<close> when it is negative or above \<open>2^32 - 1\<close>, the largest length of an
  array. Each \<^verbatim>\<open>for\<close> loop is a fold of its body over its counter values; the bound
  \<^verbatim>\<open>result.length\<close> of the averaging loop is read once, as no step of that loop changes
  the length.
\<close>

definition normalizeArray_body :: "jsnum list \<Rightarrow> int \<Rightarrow> bool \<Rightarrow> error + jsval list" where
  "normalizeArray_body data m downsamplePeaks =
     (let n = length data in
      if m < 0 \<or> 2 ^ 32 - 1 < m then Inl RangeError
      else if m \<le> int n then
        (let filled = replicate (nat m) (Number (Fin 0));
             rc = fold (downsample_step data m downsamplePeaks) [0..<n] (filled, filled);
             result = fst rc;
             count = snd rc
         in if \<not> downsamplePeaks
            then Inr (fold (average_step count) [0..<length result] result)
            else Inr result)
      else Inr (fold (upsample_step data m) [0..<nat m] (replicate (nat m) Undefined)))"

section \<open>normalizeArray: memoization\<close>

text \<open>
  Arrays are objects: two arrays with the same elements can be different instances.
  A \<^verbatim>\<open>Float32Array\<close> is its identity together with its current elements, and a call
  may pass the same instance with other elements than before. The arrays that
  \<^verbatim>\<open>normalizeArray\<close> creates live in a heap, addressed by their position, and the
  function returns an address.

  The module-level \<^verbatim>\<open>dataMap\<close> is a \<^verbatim>\<open>WeakMap\<close> from a buffer instance to an object
  that maps the key \<^verbatim>\<open>m.toString()\<close> to an object that maps the key
  \<^verbatim>\<open>downsamplePeaks.toString()\<close> to an array. Both conversions are injective, so the
  keys are modelled by \<open>m\<close> and the flag themselves. Garbage collection of a
  \<^verbatim>\<open>WeakMap\<close> entry is not observable by the program and is not modelled.
\<close>

record Float32Array =
  ident :: nat
  elems :: "jsnum list"

record state =
  heap :: "jsval list list"
  dataMap :: "nat \<Rightarrow> (int \<Rightarrow> (bool \<Rightarrow> nat option) option) option"

text \<open>
  The whole function. With \<^verbatim>\<open>memoize\<close>, lines 16 to 20 register the buffer and the
  key \<open>m\<close> in \<^verbatim>\<open>dataMap\<close> before anything else happens, line 21 returns a cached array
  (an array is always truthy), and line 60 stores the new array. The array allocated on
  line 26 is entered in the heap with its final elements.
\<close>

definition normalizeArray ::
  "Float32Array \<Rightarrow> int \<Rightarrow> bool \<Rightarrow> bool \<Rightarrow> state \<Rightarrow> (error + nat) \<times> state" where
  "normalizeArray data m downsamplePeaks memoize s =
     (let cache = (case dataMap s (ident data) of Some c \<Rightarrow> c | None \<Rightarrow> Map.empty);
          inner = (case cache m of Some d \<Rightarrow> d | None \<Rightarrow> Map.empty);
          s1 = (if memoize
                then s\<lparr>dataMap := (dataMap s)(ident data \<mapsto> cache(m \<mapsto> inner))\<rparr>
                else s)
      in case (if memoize then inner downsamplePeaks else None) of
           Some r \<Rightarrow> (Inr r, s1)
         | None \<Rightarrow>
             (case normalizeArray_body (elems data) m downsamplePeaks of
                Inl e \<Rightarrow> (Inl e, s1)
              | Inr result \<Rightarrow>
                  (let r = length (heap s1);
                       s2 = s1\<lparr>heap := heap s1 @ [result]\<rparr>
                   in (Inr r,
                       if memoize
                       then s2\<lparr>dataMap := (dataMap s2)
                              (ident data \<mapsto> cache(m \<mapsto> inner(downsamplePeaks \<mapsto> r)))\<rparr>
                       else s2))))"

text \<open>The cache entry of a buffer instance, a target length and a mode, if populated.\<close>

definition cached :: "state \<Rightarrow> nat \<Rightarrow> int \<Rightarrow> bool \<Rightarrow> nat option" where
  "cached s b m downsamplePeaks =
     (case dataMap s b of
        None \<Rightarrow> None
      | Some cache \<Rightarrow> (case cache m of None \<Rightarrow> None | Some inner \<Rightarrow> inner downsamplePeaks))"

text \<open>The elements of the array that a call returned, read from the heap after the call.\<close>

definition returned :: "(error + nat) \<times> state \<Rightarrow> jsval list option" where
  "returned res =
     (case fst res of
        Inl e \<Rightarrow> None
      | Inr r \<Rightarrow> if r < length (heap (snd res)) then Some (heap (snd res) ! r) else None)"

text \<open>The state of a freshly loaded module: no array created, nothing cached.\<close>

definition initial :: state where
  "initial = \<lparr>heap = [], dataMap = Map.empty\<rparr>"

section \<open>drawSpeechVisual\<close>

text \<open>
  The drawing context is modelled by the sequence of the calls it has received. The
  canvas gives its pixel dimensions. \<^verbatim>\<open>Date.now()\<close> is read once in each iteration of
  the loop: \<open>now i\<close> is the reading in iteration \<open>i\<close>. Coordinates are exact reals, with
  the sine and cosine of the reals.
\<close>

datatype canvas_op =
    clearRect real real real real
  | beginPath
  | moveTo real real
  | lineTo real real
  | closePath
  | fillStyle string
  | fill

datatype speakingState = ai | user

record HTMLCanvasElement =
  width :: nat
  height :: nat

definition numberOfPoints :: nat where
  "numberOfPoints = 50"

text \<open>The point computed in iteration \<open>i\<close> of the loop (source lines 94 to 100).\<close>

definition path_point :: "HTMLCanvasElement \<Rightarrow> (nat \<Rightarrow> int) \<Rightarrow> nat \<Rightarrow> real \<times> real" where
  "path_point canvas now i =
     (let centerX = real (width canvas) / 2;
          centerY = real (height canvas) / 2;
          baseRadius = 40;
          squishFactorMax = 5;
          squishSpeed = 200;
          angle = (real i / real numberOfPoints) * pi * 2;
          squishFactor = sin (real_of_int (now i) / squishSpeed + angle * 3) * squishFactorMax;
          radius = baseRadius + squishFactor;
          x = centerX + cos angle * radius;
          y = centerY + sin angle * radius
      in (x, y))"

definition path_step ::
  "HTMLCanvasElement \<Rightarrow> (nat \<Rightarrow> int) \<Rightarrow> nat \<Rightarrow> canvas_op list \<Rightarrow> canvas_op list" where
  "path_step canvas now i ctx =
     (let p = path_point canvas now i
      in if i = 0 then ctx @ [moveTo (fst p) (snd p)] else ctx @ [lineTo (fst p) (snd p)])"

text \<open>
  The call on line 79 passes three arguments, so \<^verbatim>\<open>memoize\<close> takes its default
  \<^verbatim>\<open>false\<close>. An exception of \<^verbatim>\<open>normalizeArray\<close> would leave the function before any
  drawing. The function returns nothing.
\<close>

definition drawSpeechVisual ::
  "HTMLCanvasElement \<Rightarrow> canvas_op list \<Rightarrow> Float32Array \<Rightarrow> speakingState \<Rightarrow> (nat \<Rightarrow> int) \<Rightarrow>
     state \<Rightarrow> (error + unit) \<times> canvas_op list \<times> state" where
  "drawSpeechVisual canvas ctx data speakingState now s =
     (case normalizeArray data 10 True False s of
        (Inl e, s') \<Rightarrow> (Inl e, ctx, s')
      | (Inr points, s') \<Rightarrow>
          (let ctx1 = ctx @ [clearRect 0 0 (real (width canvas)) (real (height canvas))];
               ctx2 = ctx1 @ [beginPath];
               ctx3 = fold (path_step canvas now) [0..<Suc numberOfPoints] ctx2;
               ctx4 = ctx3 @ [closePath];
               ctx5 = ctx4 @ [fillStyle ''black''];
               ctx6 = ctx5 @ [fill]
           in (Inr (), ctx6, s')))"

section \<open>Notions used in the statements\<close>

text \<open>
  The definitions of this section are not translations of code: they are what the
  theorems compare the code with.

  The bucket of input index \<open>i\<close>, as the specification writes it:
  \<open>bucket(i) = floor(i * m / n)\<close>, and the samples that it maps to bucket \<open>k\<close>.
\<close>

definition bucket :: "nat \<Rightarrow> int \<Rightarrow> nat \<Rightarrow> nat" where
  "bucket n m i = nat \<lfloor>real i * real_of_int m / real n\<rfloor>"

definition spec_bucket_samples :: "jsnum list \<Rightarrow> int \<Rightarrow> nat \<Rightarrow> jsnum list" where
  "spec_bucket_samples data m k =
     map (\<lambda>i. data ! i) (filter (\<lambda>i. bucket (length data) m i = k) [0..<length data])"

text \<open>
  The index that line 32 computes for input index \<open>i\<close> (lemma \<open>downsample_index\<close>):
  the value of \<^verbatim>\<open>Math.floor(i * (m / n))\<close> in double arithmetic. It can be one less than
  \<open>floor(i * m / n)\<close>: the examples are \<open>n = 44\<close>, \<open>m = 30\<close>, \<open>i = 22\<close> and \<open>n = 154\<close>,
  \<open>m = 10\<close>, \<open>i = 77\<close>.
\<close>

definition double_index :: "nat \<Rightarrow> int \<Rightarrow> nat \<Rightarrow> int" where
  "double_index n m i = \<lfloor>binary64 (real i * binary64 (real_of_int m / real n))\<rfloor>"

text \<open>
  The input indices below \<open>j\<close> for which line 32 computes the index \<open>k\<close>, in increasing
  order, and the samples of a buffer that the code combines into \<^verbatim>\<open>result[k]\<close>.
\<close>

definition members :: "nat \<Rightarrow> int \<Rightarrow> nat \<Rightarrow> nat \<Rightarrow> nat list" where
  "members n m j k = filter (\<lambda>i. double_index n m i = int k) [0..<j]"

definition bucket_samples :: "jsnum list \<Rightarrow> int \<Rightarrow> nat \<Rightarrow> jsnum list" where
  "bucket_samples data m k = map (\<lambda>i. data ! i) (members (length data) m (length data) k)"

text \<open>
  The largest absolute value of a list of samples, starting from 0, and the mean of
  their absolute values, both in the arithmetic of JavaScript numbers. On finite samples
  the mean is the mean of the reals (lemma \<open>mean_abs_Fin\<close>); the mean of no sample is
  \<open>0 / 0\<close>, which is \<open>NaN\<close>.
\<close>

definition peak_abs :: "jsnum list \<Rightarrow> jsnum" where
  "peak_abs xs = foldl Math_max (Fin 0) (map Math_abs xs)"

definition mean_abs :: "jsnum list \<Rightarrow> jsnum" where
  "mean_abs xs = jdiv (foldl jadd (Fin 0) (map Math_abs xs)) (num (length xs))"


text \<open>The drawing call that iteration \<open>i\<close> of the path loop makes.\<close>

definition path_op :: "HTMLCanvasElement \<Rightarrow> (nat \<Rightarrow> int) \<Rightarrow> nat \<Rightarrow> canvas_op" where
  "path_op canvas now i =
     (if i = 0 then moveTo (fst (path_point canvas now i)) (snd (path_point canvas now i))
      else lineTo (fst (path_point canvas now i)) (snd (path_point canvas now i)))"

text \<open>
  A state in which every cached address is the address of an array of the heap. The
  initial state is one, and \<^verbatim>\<open>normalizeArray\<close> keeps the property (lemmas
  \<open>cache_ok_initial\<close> and \<open>cache_ok_normalizeArray\<close>), so it holds in every state the
  program reaches.
\<close>

definition cache_ok :: "state \<Rightarrow> bool" where
  "cache_ok s = (\<forall>b m p r. cached s b m p = Some r \<longrightarrow> r < length (heap s))"

text \<open>The state after a sequence of calls of \<^verbatim>\<open>normalizeArray\<close>, with any arguments.\<close>

fun calls :: "(Float32Array \<times> int \<times> bool \<times> bool) list \<Rightarrow> state \<Rightarrow> state" where
  "calls [] s = s"
| "calls ((data, m, downsamplePeaks, memoize) # cs) s =
     calls cs (snd (normalizeArray data m downsamplePeaks memoize s))"

text \<open>
  The element that a \<^verbatim>\<open>Float32Array\<close> holds for a number written as the decimal \<open>x\<close>:
  the literal denotes the nearest double, and the array stores the nearest 32-bit float
  of that.
\<close>

definition float32 :: "real \<Rightarrow> jsnum" where
  "float32 x = Fin (binary32 (binary64 x))"

section \<open>Lemmas\<close>

subsection \<open>Array access at integer keys\<close>

lemma array_index_num [simp]: "array_index (num k) = Some k"
  by (simp add: num_def)

lemma aget_num: "aget xs (num k) = (if k < length xs then xs ! k else Undefined)"
  by (simp add: aget_def)

lemma f32get_num: "f32get data (num k) = (if k < length data then Number (data ! k) else Undefined)"
  by (simp add: f32get_def)

lemma aset_num:
  "aset xs (num k) v =
     (if k < length xs then xs[k := v] else xs @ replicate (k - length xs) Undefined @ [v])"
  by (simp add: aset_def)

subsection \<open>Rounding\<close>

lemma round_half_even_error: "\<bar>of_int (round_half_even q) - q\<bar> \<le> 1 / 2"
proof -
  define d where "d = q - of_int \<lfloor>q\<rfloor>"
  have d: "0 \<le> d" "d < 1" unfolding d_def by linarith+
  have q: "q = of_int \<lfloor>q\<rfloor> + d" by (simp add: d_def)
  consider "d < 1 / 2" | "1 / 2 < d" | "d = 1 / 2" by linarith
  then show ?thesis
  proof cases
    case 1
    then have "round_half_even q = \<lfloor>q\<rfloor>"
      by (simp add: round_half_even_def Let_def d_def)
    then show ?thesis using d 1 by (simp add: d_def)
  next
    case 2
    then have "round_half_even q = \<lfloor>q\<rfloor> + 1"
      by (simp add: round_half_even_def Let_def d_def)
    then show ?thesis using d 2 by (simp add: d_def)
  next
    case 3
    then have "round_half_even q = \<lfloor>q\<rfloor> \<or> round_half_even q = \<lfloor>q\<rfloor> + 1"
      by (simp add: round_half_even_def Let_def d_def)
    then show ?thesis using 3 by (auto simp: d_def)
  qed
qed

lemma round_half_even_int: "round_half_even (of_int z) = z"
  by (simp add: round_half_even_def)

lemma binade:
  fixes x :: real
  assumes "x \<noteq> 0"
  shows "2 powr of_int \<lfloor>log 2 \<bar>x\<bar>\<rfloor> \<le> \<bar>x\<bar>"
proof -
  have "2 powr of_int \<lfloor>log 2 \<bar>x\<bar>\<rfloor> \<le> 2 powr log 2 \<bar>x\<bar>"
    by (intro powr_mono) simp_all
  also have "\<dots> = \<bar>x\<bar>" using assms by simp
  finally show ?thesis .
qed

lemma ulp_eq: "(2::real) powr (of_int e - 52) = 2 powr of_int e / 2 ^ 52"
  by (simp add: powr_diff)

lemma binary64_error: "\<bar>binary64 x - x\<bar> \<le> \<bar>x\<bar> / 2 ^ 53"
proof (cases "x = 0")
  case True
  then show ?thesis by (simp add: binary64_def)
next
  case False
  define e where "e = \<lfloor>log 2 \<bar>x\<bar>\<rfloor>"
  define u :: real where "u = 2 powr (of_int e - 52)"
  have u: "0 < u" by (simp add: u_def)
  have b: "binary64 x = of_int (round_half_even (x / u)) * u"
    using False by (simp add: binary64_def Let_def e_def u_def)
  have "binary64 x - x = (of_int (round_half_even (x / u)) - x / u) * u"
    using u by (simp add: b algebra_simps)
  then have "\<bar>binary64 x - x\<bar> = \<bar>of_int (round_half_even (x / u)) - x / u\<bar> * u"
    using u by (simp add: abs_mult)
  also have "\<dots> \<le> (1 / 2) * u"
    using u round_half_even_error [of "x / u"] by (intro mult_right_mono) simp_all
  also have "\<dots> = 2 powr of_int e / 2 ^ 53"
    by (simp add: u_def ulp_eq)
  also have "\<dots> \<le> \<bar>x\<bar> / 2 ^ 53"
    using binade [OF False] by (simp add: e_def divide_right_mono)
  finally show ?thesis .
qed

lemma binary64_upper:
  assumes "0 \<le> x"
  shows "binary64 x \<le> x * (1 + 1 / 2 ^ 53)"
proof -
  have "x * (1 + 1 / 2 ^ 53) = x + \<bar>x\<bar> / 2 ^ 53" using assms by (simp add: algebra_simps)
  then show ?thesis using binary64_error [of x] by linarith
qed

lemma binary64_nonneg: "0 \<le> x \<Longrightarrow> 0 \<le> binary64 x"
proof -
  assume x: "0 \<le> x"
  have "\<bar>x\<bar> = x" using x by simp
  then have "x - x / 2 ^ 53 \<le> binary64 x"
    using binary64_error [of x] by linarith
  moreover have "x / 2 ^ 53 \<le> x / 1" using x by (intro divide_left_mono) simp_all
  ultimately show ?thesis by simp
qed


lemma binary64_dyadic:
  assumes "\<bar>z\<bar> < 2 ^ 53"
  shows "binary64 (of_int z / 2 ^ k) = of_int z / 2 ^ k"
proof (cases "z = 0")
  case True
  then show ?thesis by (simp add: binary64_def)
next
  case False
  define x :: real where "x = of_int z / 2 ^ k"
  define e where "e = \<lfloor>log 2 \<bar>x\<bar>\<rfloor>"
  define u :: real where "u = 2 powr (of_int e - 52)"
  have x0: "x \<noteq> 0" using False by (simp add: x_def)
  have "\<bar>x\<bar> = of_int \<bar>z\<bar> / 2 ^ k" by (simp add: x_def)
  also have "\<dots> < 2 ^ 53 / 2 ^ k"
  proof -
    have "(of_int \<bar>z\<bar> :: real) < of_int (2 ^ 53)" using assms by (simp only: of_int_less_iff)
    then show ?thesis by (simp add: divide_strict_right_mono)
  qed
  also have "\<dots> = 2 powr (53 - real k)"
    by (simp add: powr_diff powr_realpow)
  finally have "\<bar>x\<bar> < 2 powr (53 - real k)" .
  moreover have "2 powr of_int e \<le> \<bar>x\<bar>"
    unfolding e_def using x0 by (rule binade)
  ultimately have "(2::real) powr of_int e < 2 powr (53 - real k)" by linarith
  then have "of_int e < 53 - real k" by simp
  then have d0: "0 \<le> 52 - e - int k" by linarith
  define d where "d = nat (52 - e - int k)"
  have d: "real d = 52 - of_int e - real k" using d0 by (simp add: d_def)
  have "(2::real) ^ d * 2 ^ k = 2 powr (real (d + k))"
    by (simp only: powr_realpow [of 2, simplified] power_add)
  then have "u * (2 ^ d * 2 ^ k) = 2 powr (of_int e - 52) * 2 powr (real (d + k))"
    by (simp only: u_def)
  also have "\<dots> = 2 powr (of_int e - 52 + real (d + k))"
    by (simp only: powr_add)
  also have "of_int e - 52 + real (d + k) = 0" using d by simp
  finally have u: "u * (2 ^ d * 2 ^ k) = 1" by simp
  then have ui: "u = 1 / (2 ^ d * 2 ^ k)" by (simp add: field_simps)
  have "x / u = of_int (z * 2 ^ d)"
    by (simp add: x_def ui)
  then have "binary64 x = of_int (z * 2 ^ d) * u"
    using x0 by (simp add: binary64_def Let_def e_def u_def round_half_even_int del: of_int_mult of_int_power)
  also have "\<dots> = x" by (simp add: x_def ui)
  finally show ?thesis by (simp add: x_def)
qed

lemma binary64_of_nat:
  assumes "i < 2 ^ 53"
  shows "binary64 (real i) = real i"
proof -
  have "\<bar>int i\<bar> < 2 ^ 53" using assms by simp
  from binary64_dyadic [OF this, of 0] show ?thesis by simp
qed

lemma binary64_lower:
  assumes "0 \<le> x"
  shows "x * (1 - 1 / 2 ^ 53) \<le> binary64 x"
proof -
  have "x * (1 - 1 / 2 ^ 53) = x - \<bar>x\<bar> / 2 ^ 53" using assms by (simp add: algebra_simps)
  then show ?thesis using binary64_error [of x] by linarith
qed

lemma binary64_zero: "binary64 0 = 0"
  by (simp add: binary64_def)

lemma binary64_one: "binary64 1 = 1"
  using binary64_of_nat [of 1] by simp

lemma floor_log2:
  assumes "0 < x" "2 powr of_int e \<le> x" "x < 2 powr (of_int e + 1)"
  shows "\<lfloor>log 2 x\<rfloor> = e"
proof (rule floor_unique)
  show "of_int e \<le> log 2 x" using assms by (simp add: le_log_iff)
  show "log 2 x < of_int e + 1" using assms by (simp add: log_less_iff)
qed

lemma binary64_eval:
  assumes "0 < x" "2 powr of_int e \<le> x" "x < 2 powr (of_int e + 1)"
  shows "binary64 x = of_int (round_half_even (x / 2 powr (of_int e - 52))) * 2 powr (of_int e - 52)"
  using assms floor_log2 [OF assms] by (simp add: binary64_def Let_def)

lemma powr_values:
  "2 powr (- 1 :: real) = 1 / 2" "2 powr (0 :: real) = 1"
  "2 powr (- 53 :: real) = 1 / 2 ^ 53" "2 powr (3 :: real) = 8" "2 powr (4 :: real) = 16"
  "2 powr (- 49 :: real) = 1 / 2 ^ 49" "2 powr (- 4 :: real) = 1 / 16"
  "2 powr (- 3 :: real) = 1 / 8" "2 powr (- 56 :: real) = 1 / 2 ^ 56"
  "2 powr (2 :: real) = 4" "2 powr (- 50 :: real) = 1 / 2 ^ 50"
  by (simp_all add: powr_minus inverse_eq_divide)

lemma quotient_30_44: "binary64 (30 / 44) = 6141272219141585 / 2 ^ 53"
proof -
  have "binary64 (30 / 44) =
        of_int (round_half_even ((30 / 44) / 2 powr (of_int (- 1) - 52))) * 2 powr (of_int (- 1) - 52)"
    by (rule binary64_eval) (simp_all add: powr_values)
  also have "\<dots> = 6141272219141585 / 2 ^ 53"
    by (simp add: powr_values round_half_even_def Let_def)
  finally show ?thesis .
qed

lemma product_22: "binary64 (22 * (6141272219141585 / 2 ^ 53)) = 8444249301319679 / 2 ^ 49"
proof -
  have "binary64 (22 * (6141272219141585 / 2 ^ 53)) =
        of_int (round_half_even ((22 * (6141272219141585 / 2 ^ 53)) / 2 powr (of_int 3 - 52))) *
          2 powr (of_int 3 - 52)"
    by (rule binary64_eval) (simp_all add: powr_values)
  also have "\<dots> = 8444249301319679 / 2 ^ 49"
    by (simp add: powr_values round_half_even_def Let_def)
  finally show ?thesis .
qed

lemma quotient_10_154: "binary64 (10 / 154) = 4679064547917398 / 2 ^ 56"
proof -
  have "binary64 (10 / 154) =
        of_int (round_half_even ((10 / 154) / 2 powr (of_int (- 4) - 52))) * 2 powr (of_int (- 4) - 52)"
    by (rule binary64_eval) (simp_all add: powr_values)
  also have "\<dots> = 4679064547917398 / 2 ^ 56"
    by (simp add: powr_values round_half_even_def Let_def)
  finally show ?thesis .
qed

lemma product_77: "binary64 (77 * (4679064547917398 / 2 ^ 56)) = 5629499534213119 / 2 ^ 50"
proof -
  have "binary64 (77 * (4679064547917398 / 2 ^ 56)) =
        of_int (round_half_even ((77 * (4679064547917398 / 2 ^ 56)) / 2 powr (of_int 2 - 52))) *
          2 powr (of_int 2 - 52)"
    by (rule binary64_eval) (simp_all add: powr_values)
  also have "\<dots> = 5629499534213119 / 2 ^ 50"
    by (simp add: powr_values round_half_even_def Let_def)
  finally show ?thesis .
qed

lemma binary64_eval_neg:
  assumes "x < 0" "2 powr of_int e \<le> - x" "- x < 2 powr (of_int e + 1)"
  shows "binary64 x = of_int (round_half_even (x / 2 powr (of_int e - 52))) * 2 powr (of_int e - 52)"
proof -
  have "\<lfloor>log 2 \<bar>x\<bar>\<rfloor> = e"
    using floor_log2 [of "- x" e] assms by simp
  then show ?thesis using assms(1) by (simp add: binary64_def Let_def)
qed

lemma binary32_eval:
  assumes "0 < x" "2 powr of_int e \<le> x" "x < 2 powr (of_int e + 1)"
  shows "binary32 x = of_int (round_half_even (x / 2 powr (of_int e - 23))) * 2 powr (of_int e - 23)"
  using assms floor_log2 [OF assms] by (simp add: binary32_def Let_def)

lemma binary32_eval_neg:
  assumes "x < 0" "2 powr of_int e \<le> - x" "- x < 2 powr (of_int e + 1)"
  shows "binary32 x = of_int (round_half_even (x / 2 powr (of_int e - 23))) * 2 powr (of_int e - 23)"
proof -
  have "\<lfloor>log 2 \<bar>x\<bar>\<rfloor> = e"
    using floor_log2 [of "- x" e] assms by simp
  then show ?thesis using assms(1) by (simp add: binary32_def Let_def)
qed

subsection \<open>The index of line 32\<close>

lemma downsample_index:
  assumes "0 < n"
  shows "Math_floor (round64 (jmul (num i) (round64 (jdiv (Fin (of_int m)) (num n))))) =
         Fin (of_int (double_index n m i))"
  using assms by (simp add: num_def double_index_def)

text \<open>
  The index is in range: with \<open>1 \<le> m \<le> n\<close> and \<open>n \<le> 2^52\<close>, the two roundings
  cannot lift \<open>i * m / n \<le> m * (1 - 1 / n)\<close> to \<open>m\<close>.
\<close>

lemma double_index_range:
  assumes "1 \<le> m" "m \<le> int n" "n \<le> 2 ^ 52" "i < n"
  shows "0 \<le> double_index n m i" and "double_index n m i < m"
proof -
  define t :: real where "t = 1 + 1 / 2 ^ 53"
  define q :: real where "q = real_of_int m / real n"
  define c where "c = binary64 q"
  define x where "x = real i * c"
  define p where "p = binary64 x"
  have n: "0 < real n" using assms by simp
  have t: "0 \<le> t" by (simp add: t_def)
  have q: "0 \<le> q" using assms by (simp add: q_def)
  have c: "0 \<le> c" "c \<le> q * t"
    unfolding c_def t_def using q by (rule binary64_nonneg, rule binary64_upper)
  have x: "0 \<le> x" unfolding x_def using c(1) by simp
  have "x \<le> real i * (q * t)" unfolding x_def using c(2) by (intro mult_left_mono) simp_all
  then have xq: "x \<le> (real i * q) * t" by (simp add: mult.assoc)
  have p: "0 \<le> p" "p \<le> x * t"
    unfolding p_def t_def using x by (rule binary64_nonneg, rule binary64_upper)
  have "x * t \<le> ((real i * q) * t) * t" using xq t by (rule mult_right_mono)
  then have p1: "p \<le> (real i * q) * (t * t)" using p(2) by (simp add: mult.assoc)
  have "real i \<le> real n - 1" using assms(4) by linarith
  then have "real i * q \<le> (real n - 1) * q" using q by (rule mult_right_mono)
  also have "(real n - 1) * q = real_of_int m * (1 - 1 / real n)"
    using n by (simp add: q_def field_simps)
  also have "\<dots> \<le> real_of_int m * (1 - 1 / 2 ^ 52)"
  proof -
    have "real n \<le> real (2 ^ 52)" using assms(3) by (simp only: of_nat_le_iff)
    then have "real n \<le> 2 ^ 52" by simp
    then have "1 / 2 ^ 52 \<le> 1 / real n" using n by (intro divide_left_mono) simp_all
    then show ?thesis using assms(1) by (intro mult_left_mono) simp_all
  qed
  finally have iq: "real i * q \<le> real_of_int m * (1 - 1 / 2 ^ 52)" .
  have tt: "0 \<le> t * t" using t by simp
  have "(real i * q) * (t * t) \<le> (real_of_int m * (1 - 1 / 2 ^ 52)) * (t * t)"
    using iq tt by (rule mult_right_mono)
  also have "\<dots> = real_of_int m * ((1 - 1 / 2 ^ 52) * (t * t))" by simp
  also have "\<dots> < real_of_int m * 1"
  proof -
    have "(1 - 1 / 2 ^ 52) * (t * t) < 1" by (simp add: t_def)
    then show ?thesis using assms(1) by (intro mult_strict_left_mono) simp_all
  qed
  finally have "p < real_of_int m" using p1 by simp
  then show "double_index n m i < m"
    by (simp add: double_index_def p_def x_def c_def q_def floor_less_iff)
  show "0 \<le> double_index n m i"
    using p(1) by (simp add: double_index_def p_def x_def c_def q_def)
qed

text \<open>
  The two roundings, each of relative size at most \<open>2^-53\<close>, and the index they
  leave: it is \<open>k\<close> whenever \<open>i * m / n\<close> is far enough from the integers \<open>k\<close> and
  \<open>k + 1\<close>.
\<close>

lemma product_bounds:
  assumes "0 < n" "0 \<le> m"
  shows "real i * real_of_int m / real n * ((1 - 1 / 2 ^ 53) * (1 - 1 / 2 ^ 53)) \<le>
         binary64 (real i * binary64 (real_of_int m / real n))"
    and "binary64 (real i * binary64 (real_of_int m / real n)) \<le>
         real i * real_of_int m / real n * ((1 + 1 / 2 ^ 53) * (1 + 1 / 2 ^ 53))"
proof -
  define t :: real where "t = 1 + 1 / 2 ^ 53"
  define r :: real where "r = 1 - 1 / 2 ^ 53"
  define q :: real where "q = real_of_int m / real n"
  define c where "c = binary64 q"
  define x where "x = real i * c"
  define p where "p = binary64 x"
  have t: "0 \<le> t" and r: "0 \<le> r" by (simp_all add: t_def r_def)
  have q: "0 \<le> q" using assms by (simp add: q_def)
  have c: "0 \<le> c" "c \<le> q * t" "q * r \<le> c"
    unfolding c_def t_def r_def using q
    by (rule binary64_nonneg, rule binary64_upper, rule binary64_lower)
  have x: "0 \<le> x" unfolding x_def using c(1) by simp
  have "x \<le> real i * (q * t)" unfolding x_def using c(2) by (intro mult_left_mono) simp_all
  then have xu: "x \<le> (real i * q) * t" by (simp add: mult.assoc)
  have "real i * (q * r) \<le> x" unfolding x_def using c(3) by (intro mult_left_mono) simp_all
  then have xl: "(real i * q) * r \<le> x" by (simp add: mult.assoc)
  have p: "p \<le> x * t" "x * r \<le> p"
    unfolding p_def t_def r_def using x by (rule binary64_upper, rule binary64_lower)
  have "x * t \<le> ((real i * q) * t) * t" using xu t by (rule mult_right_mono)
  then have pu: "p \<le> (real i * q) * (t * t)" using p(1) by (simp add: mult.assoc)
  have "((real i * q) * r) * r \<le> x * r" using xl r by (rule mult_right_mono)
  then have pl: "(real i * q) * (r * r) \<le> p" using p(2) by (simp add: mult.assoc)
  show "real i * real_of_int m / real n * ((1 - 1 / 2 ^ 53) * (1 - 1 / 2 ^ 53)) \<le>
         binary64 (real i * binary64 (real_of_int m / real n))"
    using pl by (simp add: r_def p_def x_def c_def q_def)
  show "binary64 (real i * binary64 (real_of_int m / real n)) \<le>
         real i * real_of_int m / real n * ((1 + 1 / 2 ^ 53) * (1 + 1 / 2 ^ 53))"
    using pu by (simp add: t_def p_def x_def c_def q_def)
qed

lemma double_index_eqI:
  assumes "0 < n" "0 \<le> m"
    and "real_of_int k \<le> real i * real_of_int m / real n * ((1 - 1 / 2 ^ 53) * (1 - 1 / 2 ^ 53))"
    and "real i * real_of_int m / real n * ((1 + 1 / 2 ^ 53) * (1 + 1 / 2 ^ 53)) < real_of_int k + 1"
  shows "double_index n m i = k"
  unfolding double_index_def
proof (rule floor_unique)
  show "real_of_int k \<le> binary64 (real i * binary64 (real_of_int m / real n))"
    using assms(3) product_bounds(1) [OF assms(1,2), of i] by linarith
  show "binary64 (real i * binary64 (real_of_int m / real n)) < real_of_int k + 1"
    using assms(4) product_bounds(2) [OF assms(1,2), of i] by linarith
qed

lemma double_index_zero: "double_index n 0 i = 0"
  by (simp add: double_index_def binary64_zero)

lemma double_index_identity:
  assumes "i < n" "n \<le> 2 ^ 53"
  shows "double_index n (int n) i = int i"
proof -
  have "i < 2 ^ 53" using assms by linarith
  then have "binary64 (real i) = real i" by (rule binary64_of_nat)
  then show ?thesis using assms(1) by (simp add: double_index_def binary64_one)
qed

lemma double_index_44: "double_index 44 30 22 = 14" "double_index 44 30 23 = 15"
proof -
  have "double_index 44 30 22 = \<lfloor>binary64 (22 * binary64 (30 / 44))\<rfloor>"
    by (simp only: double_index_def of_nat_numeral of_int_numeral)
  also have "\<dots> = \<lfloor>8444249301319679 / 2 ^ 49 :: real\<rfloor>"
    by (simp only: quotient_30_44 product_22)
  also have "\<dots> = 14"
    by (rule floor_unique) simp_all
  finally show "double_index 44 30 22 = 14" .
  show "double_index 44 30 23 = 15"
    by (rule double_index_eqI) simp_all
qed

text \<open>
  With \<open>m = 10\<close>, the target length that \<^verbatim>\<open>drawSpeechVisual\<close> requests: for \<open>n = 154\<close>
  and \<open>i = 77\<close>, \<^verbatim>\<open>77 * (10 / 154)\<close> is \<^verbatim>\<open>4.999999999999999\<close>.
\<close>

lemma double_index_154: "double_index 154 10 77 = 4 \<and> bucket 154 10 77 = 5"
proof
  have "double_index 154 10 77 = \<lfloor>binary64 (77 * binary64 (10 / 154))\<rfloor>"
    by (simp only: double_index_def of_nat_numeral of_int_numeral)
  also have "\<dots> = \<lfloor>5629499534213119 / 2 ^ 50 :: real\<rfloor>"
    by (simp only: quotient_10_154 product_77)
  also have "\<dots> = 4"
    by (rule floor_unique) simp_all
  finally show "double_index 154 10 77 = 4" .
  have "\<lfloor>real 77 * real_of_int 10 / real 154\<rfloor> = 5"
    by (rule floor_unique) simp_all
  then show "bucket 154 10 77 = 5" by (simp add: bucket_def)
qed

subsection \<open>Buffers and targets with \<open>n * m \<le> 2^51\<close>\<close>

text \<open>
  With \<open>n * m \<le> 2^51\<close> the two roundings move \<open>i * m / n\<close> by less than \<open>1 / n\<close>.
  Then every index \<open>k < m\<close> is computed for some sample: for the largest \<open>i\<close> with
  \<open>i * m < (k + 1) * n\<close>, the quotient \<open>i * m / n\<close> lies from \<open>k + 1 / n\<close> to
  \<open>k + 1 - 1 / n\<close> (when \<open>m < n\<close>). And the index of sample \<open>i\<close> is
  \<open>floor(i * m / n)\<close> unless \<open>i * m / n\<close> is an integer, where it is that integer or
  one less.
\<close>

lemma floor_bucket:
  assumes "0 \<le> m"
  shows "\<lfloor>real i * real_of_int m / real n\<rfloor> = int (i * nat m div n)"
proof -
  have "real i * real_of_int m / real n = real (i * nat m) / real n"
    using assms by simp
  then show ?thesis
    by (simp only: floor_divide_of_nat_eq)
qed

lemma bucket_eq: "0 \<le> m \<Longrightarrow> bucket n m i = i * nat m div n"
  using floor_bucket [of m i n] by (simp add: bucket_def)

lemma small_error:
  fixes N M c :: real
  assumes "0 < N" "N * M \<le> 2 ^ 51" "0 \<le> c" "2 ^ 51 * c < 1"
  shows "M * c < 1 / N"
proof -
  have "(N * M) * c \<le> 2 ^ 51 * c" using assms(2,3) by (rule mult_right_mono)
  then have "(M * c) * N < 1" using assms(4) by (simp add: mult.commute mult.left_commute)
  then show ?thesis using assms(1) by (simp add: pos_less_divide_eq)
qed

lemma double_index_onto:
  assumes "1 \<le> m" "m < int n" "real n * real_of_int m \<le> 2 ^ 51" "k < nat m"
  shows "\<exists>i<n. double_index n m i = int k"
proof -
  define M where "M = nat m"
  define P where "P = Suc k * n"
  define i where "i = (P - 1) div M"
  define E :: real where "E = real i * real_of_int m / real n"
  have M: "0 < M" "M < n" "k < M" "int M = m" using assms by (simp_all add: M_def)
  have n: "0 < real n" using M by simp
  have pos: "0 < P" using M by (simp add: P_def)
  have e: "i * M + (P - 1) mod M = P - 1" by (simp add: i_def)
  have r: "(P - 1) mod M < M" using M(1) by simp
  have up: "i * M + 1 \<le> P" using e pos by linarith
  have lo: "P \<le> i * M + M" using e r pos by linarith
  have "Suc k \<le> M" using M(3) by simp
  then have "Suc k * n \<le> M * n" by (rule mult_le_mono1)
  then have "P \<le> n * M" by (simp add: P_def mult.commute)
  then have "i * M < n * M" using up by linarith
  then have i: "i < n" by (rule mult_less_cancel2 [THEN iffD1, THEN conjunct2])
  have Pr: "real P = (real k + 1) * real n" by (simp add: P_def algebra_simps)
  have Em: "E * real n = real (i * M)"
    using n M(4) by (simp add: E_def)
  have "real (i * M + 1) \<le> real P" using up by (simp only: of_nat_le_iff)
  then have "E * real n \<le> (real k + 1) * real n - 1" unfolding Em Pr [symmetric] by simp
  then have "E \<le> ((real k + 1) * real n - 1) / real n" using n by (simp add: pos_le_divide_eq)
  also have "\<dots> = real k + 1 - 1 / real n" using n by (simp add: field_simps)
  finally have Eu: "E \<le> real k + 1 - 1 / real n" .
  have "M + 1 \<le> n" using M(2) by simp
  then have "P + 1 \<le> i * M + n" using lo by linarith
  then have "real (P + 1) \<le> real (i * M + n)" by (simp only: of_nat_le_iff)
  then have "real P + 1 \<le> real (i * M) + real n" by simp
  then have "(real k * real n + 1) \<le> E * real n" unfolding Em Pr by (simp add: algebra_simps)
  then have "(real k * real n + 1) / real n \<le> E" using n by (simp add: pos_divide_le_eq)
  moreover have "(real k * real n + 1) / real n = real k + 1 / real n" using n by (simp add: field_simps)
  ultimately have El: "real k + 1 / real n \<le> E" by simp
  have Mr: "real M = real_of_int m" using assms(1) by (simp add: M_def)
  have "real k + 1 \<le> real M" using M(3) by linarith
  moreover have "0 \<le> 1 / real n" by simp
  ultimately have EM: "E \<le> real_of_int m" using Eu unfolding Mr by linarith
  define g :: real where "g = (1 + 1 / 2 ^ 53) * (1 + 1 / 2 ^ 53) - 1"
  define d :: real where "d = 1 - (1 - 1 / 2 ^ 53) * (1 - 1 / 2 ^ 53)"
  have g: "0 \<le> g" "2 ^ 51 * g < 1" by (simp_all add: g_def)
  have d: "0 \<le> d" "2 ^ 51 * d < 1" by (simp_all add: d_def)
  have "E * g \<le> real_of_int m * g" using EM g(1) by (rule mult_right_mono)
  moreover have "real_of_int m * g < 1 / real n" using n assms(3) g by (rule small_error)
  ultimately have "E + E * g < real k + 1" using Eu by linarith
  then have hi: "E * ((1 + 1 / 2 ^ 53) * (1 + 1 / 2 ^ 53)) < real_of_int (int k) + 1"
    by (simp add: g_def algebra_simps)
  have "E * d \<le> real_of_int m * d" using EM d(1) by (rule mult_right_mono)
  moreover have "real_of_int m * d < 1 / real n" using n assms(3) d by (rule small_error)
  ultimately have "real k \<le> E - E * d" using El by linarith
  then have lo: "real_of_int (int k) \<le> E * ((1 - 1 / 2 ^ 53) * (1 - 1 / 2 ^ 53))"
    by (simp add: d_def algebra_simps)
  have "double_index n m i = int k"
    using lo hi unfolding E_def by (intro double_index_eqI) (use M assms in simp_all)
  then show ?thesis using i by blast
qed

lemma members_nonempty:
  assumes "1 \<le> m" "m \<le> int n" "n * nat m \<le> 2 ^ 51" "k < nat m"
  shows "members n m n k \<noteq> []"
proof -
  have "\<exists>i<n. double_index n m i = int k"
  proof (cases "m = int n")
    case True
    have "n \<le> n * nat m" using assms(1) by (cases "nat m") simp_all
    then have "n \<le> 2 ^ 51" using assms(3) by (rule order_trans)
    then have "n \<le> 2 ^ 53" by simp
    then have "double_index n (int n) k = int k"
      using assms(4) True by (intro double_index_identity) simp_all
    then show ?thesis using assms(4) True by auto
  next
    case False
    then have l: "m < int n" using assms(2) by simp
    have "real (n * nat m) \<le> real (2 ^ 51)" using assms(3) by (simp only: of_nat_le_iff)
    then have "real n * real_of_int m \<le> 2 ^ 51" using assms(1) by simp
    with assms(1) l show ?thesis using assms(4) by (rule double_index_onto)
  qed
  then obtain i where "i < n" "double_index n m i = int k" by blast
  then have "i \<in> set (members n m n k)" by (simp add: members_def)
  then show ?thesis by auto
qed

lemma double_index_near:
  assumes "1 \<le> m" "m \<le> int n" "real n * real_of_int m \<le> 2 ^ 51" "i < n"
  shows "double_index n m i = int (bucket n m i) \<or>
         (double_index n m i = int (bucket n m i) - 1 \<and> n dvd i * nat m)"
proof -
  define M where "M = nat m"
  define K where "K = i * M div n"
  define R where "R = i * M mod n"
  define E :: real where "E = real i * real_of_int m / real n"
  define p where "p = binary64 (real i * binary64 (real_of_int m / real n))"
  have n0: "0 < n" using assms(4) by simp
  have n: "0 < real n" using n0 by simp
  have Mr: "real M = real_of_int m" using assms(1) by (simp add: M_def)
  have b: "bucket n m i = K" using assms(1) by (simp add: bucket_eq K_def M_def)
  have "i * M = K * n + R" by (simp add: K_def R_def)
  then have "real (i * M) = real (K * n + R)" by (simp only:)
  then have "E * real n = real K * real n + real R" using n by (simp add: E_def Mr [symmetric])
  then have "E = (real K * real n + real R) / real n" using n by (simp add: field_simps)
  then have E: "E = real K + real R / real n" using n by (simp add: field_simps)
  have R: "R < n" using n0 by (simp add: R_def)
  then have "real R + 1 \<le> real n" by linarith
  then have "(real R + 1) / real n \<le> 1" using n by (simp add: pos_divide_le_eq)
  then have Ru: "real R / real n \<le> 1 - 1 / real n" by (simp add: add_divide_distrib)
  have "real i \<le> real n" using assms(4) by simp
  then have "real i * real_of_int m \<le> real n * real_of_int m"
    using assms(1) by (intro mult_right_mono) simp_all
  then have EM: "E \<le> real_of_int m" using n by (simp add: E_def pos_divide_le_eq mult.commute)
  define g :: real where "g = (1 + 1 / 2 ^ 53) * (1 + 1 / 2 ^ 53) - 1"
  define d :: real where "d = 1 - (1 - 1 / 2 ^ 53) * (1 - 1 / 2 ^ 53)"
  have g: "0 \<le> g" "2 ^ 51 * g < 1" by (simp_all add: g_def)
  have d: "0 \<le> d" "2 ^ 51 * d < 1" by (simp_all add: d_def)
  have m0: "0 \<le> m" using assms(1) by simp
  note pb = product_bounds [OF n0 m0, of i, folded p_def E_def]
  have "E * g \<le> real_of_int m * g" using EM g(1) by (rule mult_right_mono)
  moreover have "real_of_int m * g < 1 / real n" using n assms(3) g by (rule small_error)
  moreover have "p \<le> E + E * g" using pb(2) by (simp add: g_def algebra_simps)
  ultimately have hi: "p < real K + 1" using Ru unfolding E by linarith
  have "E * d \<le> real_of_int m * d" using EM d(1) by (rule mult_right_mono)
  moreover have "real_of_int m * d < 1 / real n" using n assms(3) d by (rule small_error)
  moreover have "E - E * d \<le> p" using pb(1) by (simp add: d_def algebra_simps)
  ultimately have lo: "E - 1 / real n < p" by linarith
  have f: "double_index n m i = \<lfloor>p\<rfloor>" by (simp add: double_index_def p_def)
  have "p < of_int (int K + 1)" using hi by simp
  then have u: "\<lfloor>p\<rfloor> < int K + 1" by (simp only: floor_less_iff)
  show ?thesis
  proof (cases "R = 0")
    case True
    have "1 / real n \<le> 1" using n0 by simp
    then have "real_of_int (int K - 1) \<le> p" using lo True unfolding E by simp
    then have "int K - 1 \<le> \<lfloor>p\<rfloor>" by (simp only: le_floor_iff)
    moreover have "n dvd i * nat m" using True by (simp add: R_def M_def dvd_eq_mod_eq_0)
    ultimately show ?thesis using u unfolding f b by linarith
  next
    case False
    then have "1 \<le> real R" by simp
    then have "1 / real n \<le> real R / real n" using n by (intro divide_right_mono) simp_all
    then have "real_of_int (int K) \<le> p" using lo unfolding E by simp
    then have "int K \<le> \<lfloor>p\<rfloor>" by (simp only: le_floor_iff)
    then show ?thesis using u unfolding f b by linarith
  qed
qed

subsection \<open>The downsampling loop\<close>

lemma downsample_step_eq:
  assumes "0 \<le> double_index (length data) m i" "double_index (length data) m i < m"
    and "i < length data" "length result = nat m" "length count = nat m"
    and "b = nat (double_index (length data) m i)"
  shows "downsample_step data m p i (result, count) =
     (result[b := Number ((if p then Math_max else jadd) (ToNumber (result ! b)) (Math_abs (data ! i)))],
      count[b := Number (jadd (ToNumber (count ! b)) (Fin 1))])"
proof -
  have n: "0 < length data" using assms(3) by (cases data) simp_all
  have e: "Fin (of_int (double_index (length data) m i)) = num b"
    using assms(1,6) by (simp add: num_def)
  have b: "b < nat m" using assms(1,2,6) by linarith
  show ?thesis
    using assms(3,4,5) b
    by (simp add: downsample_step_def downsample_index [OF n] e aget_num aset_num f32get_num)
qed

lemma map_upt_update:
  assumes "k < M"
  shows "(map f [0..<M])[k := v] = map (f(k := v)) [0..<M]"
  using assms by (intro nth_equalityI) (simp_all add: nth_list_update)

lemma members_Suc:
  "members n m (Suc j) k =
     (if double_index n m j = int k then members n m j k @ [j] else members n m j k)"
  by (simp add: members_def)

lemma downsample_fold:
  assumes "1 \<le> m" "m \<le> int (length data)" "length data \<le> 2 ^ 52" "j \<le> length data"
  shows "fold (downsample_step data m p) [0..<j]
           (replicate (nat m) (Number (Fin 0)), replicate (nat m) (Number (Fin 0))) =
         (map (\<lambda>k. Number (foldl (if p then Math_max else jadd) (Fin 0)
                  (map (\<lambda>i. Math_abs (data ! i)) (members (length data) m j k)))) [0..<nat m],
          map (\<lambda>k. Number (num (length (members (length data) m j k)))) [0..<nat m])"
  using assms(4)
proof (induction j)
  case 0
  show ?case
    by (simp add: members_def num_def map_replicate_const)
next
  case (Suc j)
  define b where "b = nat (double_index (length data) m j)"
  have jn: "j < length data" using Suc.prems by simp
  note d = double_index_range [OF assms(1,2,3) jn]
  have b: "b < nat m" using d by (simp add: b_def)
  have bk: "(double_index (length data) m j = int k) = (k = b)" for k
    using d(1) by (auto simp: b_def)
  have IH: "fold (downsample_step data m p) [0..<j]
           (replicate (nat m) (Number (Fin 0)), replicate (nat m) (Number (Fin 0))) =
         (map (\<lambda>k. Number (foldl (if p then Math_max else jadd) (Fin 0)
                  (map (\<lambda>i. Math_abs (data ! i)) (members (length data) m j k)))) [0..<nat m],
          map (\<lambda>k. Number (num (length (members (length data) m j k)))) [0..<nat m])"
    using Suc by simp
  let ?R = "\<lambda>j. map (\<lambda>k. Number (foldl (if p then Math_max else jadd) (Fin 0)
                  (map (\<lambda>i. Math_abs (data ! i)) (members (length data) m j k)))) [0..<nat m]"
  let ?C = "\<lambda>j. map (\<lambda>k. Number (num (length (members (length data) m j k)))) [0..<nat m]"
  let ?s0 = "(replicate (nat m) (Number (Fin 0)), replicate (nat m) (Number (Fin 0)))"
  have "fold (downsample_step data m p) [0..<Suc j] ?s0 =
        downsample_step data m p j (fold (downsample_step data m p) [0..<j] ?s0)"
    by simp
  also have "\<dots> = downsample_step data m p j (?R j, ?C j)"
    by (simp only: IH)
  also have "\<dots> = ((?R j)[b := Number ((if p then Math_max else jadd) (ToNumber (?R j ! b)) (Math_abs (data ! j)))],
                    (?C j)[b := Number (jadd (ToNumber (?C j ! b)) (Fin 1))])"
    by (rule downsample_step_eq [OF d jn _ _ b_def]) simp_all
  also have "\<dots> = (?R (Suc j), ?C (Suc j))"
  proof -
    have r: "(?R j)[b := Number ((if p then Math_max else jadd) (ToNumber (?R j ! b)) (Math_abs (data ! j)))] = ?R (Suc j)"
      unfolding map_upt_update [OF b]
      using b by (intro map_cong [OF refl]) (simp add: members_Suc bk)
    have c: "(?C j)[b := Number (jadd (ToNumber (?C j ! b)) (Fin 1))] = ?C (Suc j)"
      unfolding map_upt_update [OF b]
      using b by (intro map_cong [OF refl]) (simp add: members_Suc bk num_def)
    show ?thesis by (simp only: r c)
  qed
  finally show ?case .
qed

lemma average_fold:
  assumes "length count = length result" "j \<le> length result"
  shows "fold (average_step count) [0..<j] result =
         map (\<lambda>k. if k < j then Number (jdiv (ToNumber (result ! k)) (ToNumber (count ! k)))
                   else result ! k) [0..<length result]"
  using assms(2)
proof (induction j)
  case 0
  show ?case by (simp add: map_nth)
next
  case (Suc j)
  let ?A = "\<lambda>j. map (\<lambda>k. if k < j then Number (jdiv (ToNumber (result ! k)) (ToNumber (count ! k)))
                   else result ! k) [0..<length result]"
  have j: "j < length result" using Suc.prems by simp
  have IH: "fold (average_step count) [0..<j] result = ?A j" using Suc by simp
  have "fold (average_step count) [0..<Suc j] result =
        average_step count j (fold (average_step count) [0..<j] result)"
    by simp
  also have "\<dots> = average_step count j (?A j)" by (simp only: IH)
  also have "\<dots> = (?A j)[j := Number (jdiv (ToNumber (result ! j)) (ToNumber (count ! j)))]"
    using j assms(1) by (simp add: average_step_def aget_num aset_num)
  also have "\<dots> = ?A (Suc j)"
    unfolding map_upt_update [OF j]
    by (intro map_cong [OF refl]) (simp add: less_Suc_eq)
  finally show ?case .
qed


lemma normalize_peak:
  assumes "1 \<le> m" "m \<le> int (length data)" "m \<le> 2 ^ 32 - 1" "length data \<le> 2 ^ 52"
  shows "normalizeArray_body data m True =
         Inr (map (\<lambda>k. Number (peak_abs (bucket_samples data m k))) [0..<nat m])"
  using assms(1,2,3) downsample_fold [OF assms(1,2,4) order_refl, of True]
  by (simp add: normalizeArray_body_def Let_def peak_abs_def bucket_samples_def comp_def)

lemma normalize_average:
  assumes "1 \<le> m" "m \<le> int (length data)" "m \<le> 2 ^ 32 - 1" "length data \<le> 2 ^ 52"
  shows "normalizeArray_body data m False =
         Inr (map (\<lambda>k. Number (mean_abs (bucket_samples data m k))) [0..<nat m])"
proof -
  let ?R = "map (\<lambda>k. Number (foldl jadd (Fin 0)
                  (map (\<lambda>i. Math_abs (data ! i)) (members (length data) m (length data) k)))) [0..<nat m]"
  let ?C = "map (\<lambda>k. Number (num (length (members (length data) m (length data) k)))) [0..<nat m]"
  have f: "fold (downsample_step data m False) [0..<length data]
           (replicate (nat m) (Number (Fin 0)), replicate (nat m) (Number (Fin 0))) = (?R, ?C)"
    using downsample_fold [OF assms(1,2,4) order_refl, of False] by simp
  have a: "fold (average_step ?C) [0..<length ?R] ?R =
           map (\<lambda>k. if k < length ?R then Number (jdiv (ToNumber (?R ! k)) (ToNumber (?C ! k)))
                   else ?R ! k) [0..<length ?R]"
    by (rule average_fold) simp_all
  have "normalizeArray_body data m False = Inr (fold (average_step ?C) [0..<length ?R] ?R)"
    using assms(1,2,3) by (simp add: normalizeArray_body_def Let_def f)
  also have "fold (average_step ?C) [0..<length ?R] ?R =
             map (\<lambda>k. Number (mean_abs (bucket_samples data m k))) [0..<nat m]"
    unfolding a
    by (intro nth_equalityI) (simp_all add: mean_abs_def bucket_samples_def comp_def)
  finally show ?thesis .
qed

subsection \<open>Peak and mean\<close>

lemma jge_trans: "jge a b \<Longrightarrow> jge b c \<Longrightarrow> jge a c"
  by (cases a; cases b; cases c) simp_all

lemma Math_max_props:
  assumes "acc \<noteq> NaN" "x \<noteq> NaN"
  shows "Math_max acc (Math_abs x) \<noteq> NaN"
    and "jge (Math_max acc (Math_abs x)) acc"
    and "jge (Math_max acc (Math_abs x)) (Math_abs x)"
    and "Math_max acc (Math_abs x) = acc \<or> Math_max acc (Math_abs x) = Math_abs x"
  using assms by (cases acc; cases x; simp add: max_def)+

lemma peak_fold:
  assumes "NaN \<notin> set xs" "acc \<noteq> NaN"
  shows "foldl Math_max acc (map Math_abs xs) \<noteq> NaN \<and>
         jge (foldl Math_max acc (map Math_abs xs)) acc \<and>
         (foldl Math_max acc (map Math_abs xs) = acc \<or>
          foldl Math_max acc (map Math_abs xs) \<in> Math_abs ` set xs) \<and>
         (\<forall>x\<in>set xs. jge (foldl Math_max acc (map Math_abs xs)) (Math_abs x))"
  using assms
proof (induction xs arbitrary: acc)
  case Nil
  then show ?case by (cases acc) simp_all
next
  case (Cons x xs)
  let ?a = "Math_max acc (Math_abs x)"
  let ?v = "foldl Math_max ?a (map Math_abs xs)"
  have x: "x \<noteq> NaN" and xs: "NaN \<notin> set xs" using Cons.prems(1) by auto
  note p = Math_max_props [OF Cons.prems(2) x]
  have ih: "?v \<noteq> NaN" "jge ?v ?a" "?v = ?a \<or> ?v \<in> Math_abs ` set xs"
    "\<forall>y\<in>set xs. jge ?v (Math_abs y)"
    using Cons.IH [OF xs p(1)] by simp_all
  have "jge ?v acc" using ih(2) p(2) by (rule jge_trans)
  moreover have "jge ?v (Math_abs x)" using ih(2) p(3) by (rule jge_trans)
  moreover have "?v = acc \<or> ?v \<in> Math_abs ` set (x # xs)" using ih(3) p(4) by auto
  ultimately show ?case using ih(1,4) by simp
qed

lemma jge_zero_abs: "jge (Fin 0) (Math_abs x) \<Longrightarrow> Math_abs x = Fin 0"
  by (cases x) simp_all

lemma peak_abs_max:
  assumes "NaN \<notin> set xs" "xs \<noteq> []"
  shows "jge (peak_abs xs) (Fin 0)"
    and "peak_abs xs \<in> Math_abs ` set xs"
    and "\<forall>x\<in>set xs. jge (peak_abs xs) (Math_abs x)"
proof -
  have p: "jge (peak_abs xs) (Fin 0)"
    "peak_abs xs = Fin 0 \<or> peak_abs xs \<in> Math_abs ` set xs"
    "\<forall>x\<in>set xs. jge (peak_abs xs) (Math_abs x)"
    using peak_fold [OF assms(1), of "Fin 0"] by (simp_all add: peak_abs_def)
  show "jge (peak_abs xs) (Fin 0)" by (rule p(1))
  show "\<forall>x\<in>set xs. jge (peak_abs xs) (Math_abs x)" by (rule p(3))
  show "peak_abs xs \<in> Math_abs ` set xs"
  proof (cases "peak_abs xs = Fin 0")
    case True
    obtain x where x: "x \<in> set xs" using assms(2) by (cases xs) auto
    then have "jge (Fin 0) (Math_abs x)" using p(3) True by auto
    then have "Math_abs x = Fin 0" by (rule jge_zero_abs)
    then show ?thesis using x True by force
  next
    case False
    then show ?thesis using p(2) by simp
  qed
qed

lemma sum_abs_Fin:
  "foldl jadd (Fin a) (map Math_abs (map Fin rs)) = Fin (a + sum_list (map abs rs))"
  by (induction rs arbitrary: a) (simp_all add: add.assoc)

lemma mean_abs_Fin:
  assumes "rs \<noteq> []"
  shows "mean_abs (map Fin rs) = Fin (sum_list (map abs rs) / real (length rs))"
  using assms sum_abs_Fin [of 0 rs] by (simp add: mean_abs_def num_def)

subsection \<open>Target length equal to the buffer length\<close>

lemma members_identity:
  assumes "k < n" "n \<le> 2 ^ 53"
  shows "members n (int n) n k = [k]"
proof -
  have "filter (\<lambda>i. double_index n (int n) i = int k) [0..<n] = filter (\<lambda>i. i = k) [0..<n]"
    using assms(2) by (intro filter_cong [OF refl]) (simp add: double_index_identity)
  moreover have "j \<le> n \<Longrightarrow> filter (\<lambda>i. i = k) [0..<j] = (if k < j then [k] else [])" for j
    by (induction j) auto
  ultimately show ?thesis using assms(1) by (simp add: members_def)
qed

lemma peak_abs_single: "peak_abs [x] = Math_abs x"
  by (cases x) (simp_all add: peak_abs_def)

lemma mean_abs_single: "mean_abs [x] = Math_abs x"
  by (cases x) (simp_all add: mean_abs_def num_def)

lemma mean_abs_empty: "mean_abs [] = NaN"
  by (simp add: mean_abs_def num_def)

lemma normalize_same_length:
  assumes "int (length data) \<le> 2 ^ 32 - 1"
  shows "normalizeArray_body data (int (length data)) p = Inr (map (\<lambda>x. Number (Math_abs x)) data)"
proof (cases "data = []")
  case True
  then show ?thesis by (simp add: normalizeArray_body_def)
next
  case False
  then have m: "1 \<le> int (length data)" by (cases data) simp_all
  note u = assms
  have "int (length data) \<le> int (2 ^ 52)" using assms by simp
  then have n: "length data \<le> 2 ^ 52" by (simp only: of_nat_le_iff)
  then have n': "length data \<le> 2 ^ 53" by simp
  have s: "bucket_samples data (int (length data)) k = [data ! k]" if "k < length data" for k
    using that n' by (simp add: bucket_samples_def members_identity)
  have "normalizeArray_body data (int (length data)) p =
        Inr (map (\<lambda>k. Number (Math_abs (data ! k))) [0..<length data])"
  proof (cases p)
    case True
    show ?thesis
      using True normalize_peak [OF m order_refl u n]
      by (simp add: s peak_abs_single cong: map_cong)
  next
    case False
    show ?thesis
      using False normalize_average [OF m order_refl u n]
      by (simp add: s mean_abs_single cong: map_cong)
  qed
  also have "map (\<lambda>k. Number (Math_abs (data ! k))) [0..<length data] =
             map (\<lambda>x. Number (Math_abs x)) data"
    by (intro nth_equalityI) simp_all
  finally show ?thesis .
qed

subsection \<open>Target length zero\<close>

lemma downsample_step_zero:
  assumes "i < length data"
  shows "downsample_step data 0 p i ([Number NaN], [Number NaN]) = ([Number NaN], [Number NaN])"
    and "downsample_step data 0 p i ([], []) = ([Number NaN], [Number NaN])"
proof -
  have n: "0 < length data" using assms by (cases data) simp_all
  have i: "Math_floor (round64 (jmul (num i) (round64 (jdiv (Fin 0) (num (length data)))))) = num 0"
    using downsample_index [OF n, of i 0] by (simp add: double_index_zero num_def)
  show "downsample_step data 0 p i ([Number NaN], [Number NaN]) = ([Number NaN], [Number NaN])"
    by (simp add: downsample_step_def Let_def i aget_num aset_num)
  show "downsample_step data 0 p i ([], []) = ([Number NaN], [Number NaN])"
    by (simp add: downsample_step_def Let_def i aget_num aset_num)
qed

lemma downsample_fold_zero:
  assumes "j < length data"
  shows "fold (downsample_step data 0 p) [0..<Suc j] ([], []) = ([Number NaN], [Number NaN])"
  using assms
proof (induction j)
  case 0
  then show ?case by (simp add: downsample_step_zero)
next
  case (Suc j)
  have "fold (downsample_step data 0 p) [0..<Suc (Suc j)] ([], []) =
        downsample_step data 0 p (Suc j) (fold (downsample_step data 0 p) [0..<Suc j] ([], []))"
    by simp
  also have "\<dots> = downsample_step data 0 p (Suc j) ([Number NaN], [Number NaN])"
    using Suc by simp
  also have "\<dots> = ([Number NaN], [Number NaN])"
    using Suc.prems by (rule downsample_step_zero)
  finally show ?case .
qed

lemma normalize_zero:
  assumes "data \<noteq> []"
  shows "normalizeArray_body data 0 p = Inr [Number NaN]"
proof -
  obtain j where j: "length data = Suc j" using assms by (cases data) auto
  have f: "fold (downsample_step data 0 q) [0..<length data] ([], []) = ([Number NaN], [Number NaN])"
    for q
    unfolding j by (rule downsample_fold_zero) (simp add: j)
  show ?thesis
    by (simp add: normalizeArray_body_def Let_def f average_step_def aget_num aset_num)
qed

lemma normalize_empty_zero: "normalizeArray_body [] 0 p = Inr []"
  by (simp add: normalizeArray_body_def)

subsection \<open>The upsampling loop\<close>

lemma jsub_Fin: "jsub (Fin a) (Fin b) = Fin (a - b)"
  by (simp add: jsub_def)

lemma aset_fold:
  assumes "j \<le> length r0"
  shows "fold (\<lambda>i r. aset r (num i) (g i)) [0..<j] r0 =
         map (\<lambda>k. if k < j then g k else r0 ! k) [0..<length r0]"
  using assms
proof (induction j)
  case 0
  show ?case by (simp add: map_nth)
next
  case (Suc j)
  let ?A = "\<lambda>j. map (\<lambda>k. if k < j then g k else r0 ! k) [0..<length r0]"
  have j: "j < length r0" using Suc.prems by simp
  have "fold (\<lambda>i r. aset r (num i) (g i)) [0..<Suc j] r0 =
        aset (fold (\<lambda>i r. aset r (num i) (g i)) [0..<j] r0) (num j) (g j)"
    by simp
  also have "\<dots> = aset (?A j) (num j) (g j)" using Suc by simp
  also have "\<dots> = (?A j)[j := g j]" using j by (simp add: aset_num)
  also have "\<dots> = ?A (Suc j)"
    unfolding map_upt_update [OF j]
    by (intro map_cong [OF refl]) (simp add: less_Suc_eq)
  finally show ?case .
qed

lemma upsample_fold:
  "fold (upsample_step data m) [0..<M] (replicate M Undefined) = map (upsample_value data m) [0..<M]"
proof -
  have "upsample_step data m = (\<lambda>i r. aset r (num i) (upsample_value data m i))"
    by (intro ext) (simp add: upsample_step_def)
  then show ?thesis
    using aset_fold [of M "replicate M Undefined" "upsample_value data m"] by simp
qed

lemma normalize_upsample:
  assumes "int (length data) < m" "m \<le> 2 ^ 32 - 1"
  shows "normalizeArray_body data m p = Inr (map (upsample_value data m) [0..<nat m])"
  using assms by (simp add: normalizeArray_body_def Let_def upsample_fold)




lemma f32get_empty: "f32get [] k = Undefined"
  by (simp add: f32get_def split: option.split)

lemma upsample_value_empty:
  "upsample_value [] m i = Undefined \<or> upsample_value [] m i = Number NaN"
  by (simp add: upsample_value_def Let_def f32get_empty)

subsection \<open>The cache\<close>

lemma normalizeArray_unmemoized:
  "normalizeArray data m p False s =
     (case normalizeArray_body (elems data) m p of
        Inl e \<Rightarrow> (Inl e, s)
      | Inr out \<Rightarrow> (Inr (length (heap s)), s\<lparr>heap := heap s @ [out]\<rparr>))"
  by (simp add: normalizeArray_def Let_def split: sum.splits)

lemma cached_heap_update: "cached (s\<lparr>heap := h\<rparr>) b m p = cached s b m p"
  by (simp add: cached_def)

lemma cached_dataMap_update:
  assumes "dataMap t = (dataMap s)(b \<mapsto> c(m \<mapsto> d))"
  shows "cached t b' m' p' =
     (if b' = b
      then (if m' = m then d p' else (case c m' of None \<Rightarrow> None | Some d' \<Rightarrow> d' p'))
      else cached s b' m' p')"
  using assms by (simp add: cached_def)

lemma normalizeArray_memoized:
  fixes data m p s
  defines "c \<equiv> (case dataMap s (ident data) of Some c \<Rightarrow> c | None \<Rightarrow> Map.empty)"
  defines "d \<equiv> (case c m of Some d \<Rightarrow> d | None \<Rightarrow> Map.empty)"
  defines "s1 \<equiv> s\<lparr>dataMap := (dataMap s)(ident data \<mapsto> c(m \<mapsto> d))\<rparr>"
  shows "fst (normalizeArray data m p True s) =
     (case cached s (ident data) m p of
        Some r \<Rightarrow> Inr r
      | None \<Rightarrow>
         (case normalizeArray_body (elems data) m p of
            Inl e \<Rightarrow> Inl e
          | Inr out \<Rightarrow> Inr (length (heap s))))"
    and "heap (snd (normalizeArray data m p True s)) =
     (case cached s (ident data) m p of
        Some r \<Rightarrow> heap s
      | None \<Rightarrow>
         (case normalizeArray_body (elems data) m p of
            Inl e \<Rightarrow> heap s
          | Inr out \<Rightarrow> heap s @ [out]))"
    and "cached (snd (normalizeArray data m p True s)) b' m' q =
     (if b' = ident data \<and> m' = m \<and> q = p \<and> cached s b' m' q = None
      then (case normalizeArray_body (elems data) m p of
              Inl e \<Rightarrow> None
            | Inr out \<Rightarrow> Some (length (heap s)))
      else cached s b' m' q)"
    and "cached s (ident data) m p = Some r \<Longrightarrow> normalizeArray data m p True s = (Inr r, s)"
proof -
  have dq: "d q = cached s (ident data) m q" for q
    unfolding d_def c_def cached_def by (simp split: option.splits)
  have cm: "(case c m' of None \<Rightarrow> None | Some d' \<Rightarrow> d' q) = cached s (ident data) m' q" for m' q
    unfolding c_def cached_def by (simp split: option.splits)
  have "normalizeArray data m p True s =
     (case d p of
        Some r \<Rightarrow> (Inr r, s1)
      | None \<Rightarrow>
         (case normalizeArray_body (elems data) m p of
            Inl e \<Rightarrow> (Inl e, s1)
          | Inr out \<Rightarrow>
              (Inr (length (heap s1)),
               (s1\<lparr>heap := heap s1 @ [out]\<rparr>)\<lparr>dataMap := (dataMap (s1\<lparr>heap := heap s1 @ [out]\<rparr>))
                   (ident data \<mapsto> c(m \<mapsto> d(p \<mapsto> length (heap s1))))\<rparr>)))"
    unfolding normalizeArray_def Let_def c_def [symmetric] d_def [symmetric] s1_def [symmetric]
    by (simp split: sum.splits option.splits)
  also have "\<dots> =
     (case cached s (ident data) m p of
        Some r \<Rightarrow> (Inr r, s1)
      | None \<Rightarrow>
         (case normalizeArray_body (elems data) m p of
            Inl e \<Rightarrow> (Inl e, s1)
          | Inr out \<Rightarrow>
              (Inr (length (heap s)),
               s\<lparr>heap := heap s @ [out],
                  dataMap := (dataMap s)(ident data \<mapsto> c(m \<mapsto> d(p \<mapsto> length (heap s))))\<rparr>)))"
    unfolding dq [of p] s1_def by (simp split: option.splits sum.splits)
  finally have N: "normalizeArray data m p True s =
     (case cached s (ident data) m p of
        Some r \<Rightarrow> (Inr r, s1)
      | None \<Rightarrow>
         (case normalizeArray_body (elems data) m p of
            Inl e \<Rightarrow> (Inl e, s1)
          | Inr out \<Rightarrow>
              (Inr (length (heap s)),
               s\<lparr>heap := heap s @ [out],
                  dataMap := (dataMap s)(ident data \<mapsto> c(m \<mapsto> d(p \<mapsto> length (heap s))))\<rparr>)))" .
  have h1: "heap s1 = heap s" by (simp add: s1_def)
  have c1: "cached s1 b' m' q = cached s b' m' q" for b' m' q
  proof -
    have "dataMap s1 = (dataMap s)(ident data \<mapsto> c(m \<mapsto> d))" by (simp add: s1_def)
    then show ?thesis
      by (simp add: cached_dataMap_update dq cm)
  qed
  have c2: "cached (s\<lparr>heap := h, dataMap := (dataMap s)(ident data \<mapsto> c(m \<mapsto> d(p \<mapsto> a)))\<rparr>) b' m' q =
        (if b' = ident data \<and> m' = m \<and> q = p then Some a else cached s b' m' q)" for h a b' m' q
  proof -
    have "dataMap (s\<lparr>heap := h, dataMap := (dataMap s)(ident data \<mapsto> c(m \<mapsto> d(p \<mapsto> a)))\<rparr>) =
          (dataMap s)(ident data \<mapsto> c(m \<mapsto> d(p \<mapsto> a)))" by simp
    then show ?thesis
      by (simp add: cached_dataMap_update dq cm)
  qed
  show "fst (normalizeArray data m p True s) =
     (case cached s (ident data) m p of
        Some r \<Rightarrow> Inr r
      | None \<Rightarrow>
         (case normalizeArray_body (elems data) m p of
            Inl e \<Rightarrow> Inl e
          | Inr out \<Rightarrow> Inr (length (heap s))))"
    by (simp add: N split: option.splits sum.splits)
  show "heap (snd (normalizeArray data m p True s)) =
     (case cached s (ident data) m p of
        Some r \<Rightarrow> heap s
      | None \<Rightarrow>
         (case normalizeArray_body (elems data) m p of
            Inl e \<Rightarrow> heap s
          | Inr out \<Rightarrow> heap s @ [out]))"
    by (simp add: N h1 split: option.splits sum.splits)
  show "cached (snd (normalizeArray data m p True s)) b' m' q =
     (if b' = ident data \<and> m' = m \<and> q = p \<and> cached s b' m' q = None
      then (case normalizeArray_body (elems data) m p of
              Inl e \<Rightarrow> None
            | Inr out \<Rightarrow> Some (length (heap s)))
      else cached s b' m' q)"
  proof (cases "cached s (ident data) m p")
    case None
    show ?thesis
    proof (cases "normalizeArray_body (elems data) m p")
      case (Inl e)
      show ?thesis using None by (simp add: N Inl c1)
    next
      case (Inr out)
      show ?thesis using None by (simp add: N Inr c2)
    qed
  next
    case (Some r)
    show ?thesis using Some by (auto simp: N c1)
  qed
  show "normalizeArray data m p True s = (Inr r, s)" if r: "cached s (ident data) m p = Some r"
  proof -
    obtain c0 where c0: "dataMap s (ident data) = Some c0"
      using r by (auto simp: cached_def split: option.splits)
    obtain d0 where d0: "c0 m = Some d0"
      using r c0 by (auto simp: cached_def split: option.splits)
    have "c = c0" by (simp add: c_def c0)
    moreover have "d = d0" by (simp add: d_def \<open>c = c0\<close> d0)
    moreover have "c0(m \<mapsto> d0) = c0" using d0 by (rule fun_upd_idem)
    moreover have "(dataMap s)(ident data \<mapsto> c0) = dataMap s" using c0 by (rule fun_upd_idem)
    ultimately have "s1 = s" by (simp add: s1_def)
    then show ?thesis using r by (simp add: N)
  qed
qed

lemmas normalizeArray_memo_fst = normalizeArray_memoized(1)
lemmas normalizeArray_memo_heap = normalizeArray_memoized(2)
lemmas normalizeArray_memo_cached = normalizeArray_memoized(3)
lemmas normalizeArray_hit = normalizeArray_memoized(4)

lemma normalizeArray_fst:
  "fst (normalizeArray data m p z s) =
     (case (if z then cached s (ident data) m p else None) of
        Some r \<Rightarrow> Inr r
      | None \<Rightarrow>
          (case normalizeArray_body (elems data) m p of
             Inl e \<Rightarrow> Inl e
           | Inr out \<Rightarrow> Inr (length (heap s))))"
  by (cases z) (simp_all add: normalizeArray_memo_fst normalizeArray_unmemoized split: sum.splits)

lemma normalizeArray_heap:
  "heap (snd (normalizeArray data m p z s)) =
     (case (if z then cached s (ident data) m p else None) of
        Some r \<Rightarrow> heap s
      | None \<Rightarrow>
          (case normalizeArray_body (elems data) m p of
             Inl e \<Rightarrow> heap s
           | Inr out \<Rightarrow> heap s @ [out]))"
  by (cases z) (simp_all add: normalizeArray_memo_heap normalizeArray_unmemoized split: sum.splits)

lemma normalizeArray_cached:
  "cached (snd (normalizeArray data m p z s)) b' m' q =
     (if z \<and> b' = ident data \<and> m' = m \<and> q = p \<and> cached s b' m' q = None
      then (case normalizeArray_body (elems data) m p of
              Inl e \<Rightarrow> None
            | Inr out \<Rightarrow> Some (length (heap s)))
      else cached s b' m' q)"
proof (cases z)
  case True
  then show ?thesis by (simp only: normalizeArray_memo_cached simp_thms)
next
  case False
  then show ?thesis
    by (simp add: normalizeArray_unmemoized cached_heap_update split: sum.splits)
qed

subsection \<open>Failure and success\<close>

lemma body_range_error:
  "m < 0 \<or> 2 ^ 32 - 1 < m \<Longrightarrow> normalizeArray_body data m p = Inl RangeError"
  by (simp add: normalizeArray_body_def)

lemma body_nonnegative:
  "0 \<le> m \<Longrightarrow> m \<le> 2 ^ 32 - 1 \<Longrightarrow> \<exists>out. normalizeArray_body data m p = Inr out"
  by (simp add: normalizeArray_body_def Let_def)

lemma body_length:
  assumes "1 \<le> m" "m \<le> 2 ^ 32 - 1" "length data \<le> 2 ^ 52"
  shows "\<exists>out. normalizeArray_body data m p = Inr out \<and> length out = nat m"
proof (cases "m \<le> int (length data)")
  case True
  show ?thesis
    using normalize_peak [OF assms(1) True assms(2,3)] normalize_average [OF assms(1) True assms(2,3)]
    by (cases p) simp_all
next
  case False
  then show ?thesis using assms(2) by (simp add: normalize_upsample)
qed

lemma returned_miss:
  assumes "z \<longrightarrow> cached s (ident data) m p = None"
    and "normalizeArray_body (elems data) m p = Inr out"
  shows "returned (normalizeArray data m p z s) = Some out"
  using assms by (auto simp: returned_def normalizeArray_fst normalizeArray_heap)

lemma returned_error:
  assumes "z \<longrightarrow> cached s (ident data) m p = None"
    and "normalizeArray_body (elems data) m p = Inl e"
  shows "fst (normalizeArray data m p z s) = Inl e"
  using assms by (auto simp: normalizeArray_fst)

subsection \<open>The drawn path\<close>

lemma fold_append_each: "fold (\<lambda>i c. c @ [g i]) xs c = c @ map g xs"
  by (induction xs arbitrary: c) simp_all

lemma path_fold:
  "fold (path_step canvas now) xs c = c @ map (path_op canvas now) xs"
proof -
  have "path_step canvas now = (\<lambda>i c. c @ [path_op canvas now i])"
    by (intro ext) (simp add: path_step_def path_op_def Let_def)
  then show ?thesis by (simp add: fold_append_each)
qed

lemma path_ops:
  "map (path_op canvas now) [0..<Suc n] =
     moveTo (fst (path_point canvas now 0)) (snd (path_point canvas now 0)) #
     map (\<lambda>i. lineTo (fst (path_point canvas now i)) (snd (path_point canvas now i))) [1..<Suc n]"
proof -
  have "[0..<Suc n] = 0 # [1..<Suc n]" by (simp add: upt_rec)
  then show ?thesis by (simp add: path_op_def)
qed

lemma drawSpeechVisual_eq:
  "drawSpeechVisual canvas ctx data st now s =
     (Inr (),
      ctx @ [clearRect 0 0 (real (width canvas)) (real (height canvas)), beginPath] @
        map (path_op canvas now) [0..<Suc numberOfPoints] @
        [closePath, fillStyle ''black'', fill],
      snd (normalizeArray data 10 True False s))"
proof -
  obtain out where "normalizeArray_body (elems data) 10 True = Inr out"
    using body_nonnegative [of 10 "elems data" True] by auto
  then obtain s' where e: "normalizeArray data 10 True False s = (Inr (length (heap s)), s')"
    by (simp add: normalizeArray_unmemoized)
  show ?thesis
    unfolding drawSpeechVisual_def e Let_def path_fold by simp
qed

lemma path_point_closed:
  assumes "now numberOfPoints = now 0"
  shows "path_point canvas now numberOfPoints = path_point canvas now 0"
proof -
  have "sin (real_of_int (now 0) / 200 + 2 * pi * 3) = sin (real_of_int (now 0) / 200)"
    using sin_periodic [of "real_of_int (now 0) / 200 + 2 * pi + 2 * pi"]
          sin_periodic [of "real_of_int (now 0) / 200 + 2 * pi"]
          sin_periodic [of "real_of_int (now 0) / 200"]
    by (simp add: algebra_simps)
  then show ?thesis
    using assms by (simp add: path_point_def numberOfPoints_def Let_def mult.commute)
qed

subsection \<open>Sequences of calls\<close>

lemma cache_ok_initial: "cache_ok initial"
  by (simp add: cache_ok_def cached_def initial_def)

lemma heap_grows: "length (heap s) \<le> length (heap (snd (normalizeArray data m p z s)))"
  by (simp add: normalizeArray_heap split: option.splits sum.splits)

lemma heap_kept:
  assumes "r < length (heap s)"
  shows "heap (snd (normalizeArray data m p z s)) ! r = heap s ! r"
  using assms by (simp add: normalizeArray_heap nth_append split: option.splits sum.splits)

lemma cache_ok_normalizeArray:
  assumes "cache_ok s"
  shows "cache_ok (snd (normalizeArray data m p z s))"
  unfolding cache_ok_def
proof (intro allI impI)
  fix b m' q r
  assume a: "cached (snd (normalizeArray data m p z s)) b m' q = Some r"
  show "r < length (heap (snd (normalizeArray data m p z s)))"
  proof (cases "cached s b m' q")
    case (Some r')
    then have "r' = r" using a by (simp add: normalizeArray_cached)
    then have "r < length (heap s)" using assms Some by (simp add: cache_ok_def)
    then show ?thesis using heap_grows [of s data m p z] by linarith
  next
    case None
    then show ?thesis
      using a by (auto simp: normalizeArray_cached normalizeArray_heap split: if_splits sum.splits)
  qed
qed

lemma calls_cached:
  assumes "cached s b m p = Some r"
  shows "cached (calls cs s) b m p = Some r"
  using assms
proof (induction cs arbitrary: s)
  case Nil
  then show ?case by simp
next
  case (Cons c cs)
  obtain data m' q z where c: "c = (data, m', q, z)" by (cases c) auto
  have "cached (snd (normalizeArray data m' q z s)) b m p = Some r"
    using Cons.prems by (simp add: normalizeArray_cached)
  then show ?case unfolding c calls.simps by (rule Cons.IH)
qed

lemma calls_heap:
  assumes "r < length (heap s)"
  shows "r < length (heap (calls cs s)) \<and> heap (calls cs s) ! r = heap s ! r"
  using assms
proof (induction cs arbitrary: s)
  case Nil
  then show ?case by simp
next
  case (Cons c cs)
  obtain data m' q z where c: "c = (data, m', q, z)" by (cases c) auto
  let ?s = "snd (normalizeArray data m' q z s)"
  have r: "r < length (heap ?s)" using Cons.prems heap_grows [of s data m' q z] by linarith
  have "heap ?s ! r = heap s ! r" using Cons.prems by (rule heap_kept)
  then show ?case unfolding c calls.simps using Cons.IH [OF r] by simp
qed

lemma set_bucket_samples: "set (bucket_samples data m k) \<subseteq> set data"
  by (auto simp: bucket_samples_def members_def)

subsection \<open>Concrete inputs and end points\<close>

lemma cached_initial: "cached initial b m p = None"
  by (simp add: cached_def initial_def)

lemma double_index_3:
  "double_index 3 2 0 = 0" "double_index 3 2 (Suc 0) = 0" "double_index 3 2 2 = 1"
  by (rule double_index_eqI; simp)+

lemma bucket_samples_example:
  "bucket_samples [a, b, c] 2 0 = [a, b]" "bucket_samples [a, b, c] 2 (Suc 0) = [c]"
proof -
  have l: "length [a, b, c] = 3" by simp
  have u: "[0..<3] = [0, Suc 0, 2]" by (simp add: upt_rec)
  show "bucket_samples [a, b, c] 2 0 = [a, b]"
    unfolding bucket_samples_def members_def l u by (simp add: double_index_3)
  show "bucket_samples [a, b, c] 2 (Suc 0) = [c]"
    unfolding bucket_samples_def members_def l u by (simp add: double_index_3)
qed

lemma binary64_half: "binary64 (1 / 2) = 1 / 2" "binary64 (3 / 2) = 3 / 2"
  using binary64_dyadic [of 1 1] binary64_dyadic [of 3 1] by simp_all

lemma double_index_4:
  "double_index 4 2 0 = 0" "double_index 4 2 (Suc 0) = 0"
  "double_index 4 2 2 = 1" "double_index 4 2 3 = 1"
proof -
  show "double_index 4 2 0 = 0" by (simp add: double_index_def binary64_zero)
  show "double_index 4 2 (Suc 0) = 0" by (simp add: double_index_def binary64_half)
  show "double_index 4 2 2 = 1" by (simp add: double_index_def binary64_half binary64_one)
  show "double_index 4 2 3 = 1"
  proof -
    have "\<lfloor>3 / 2 :: real\<rfloor> = 1" by (rule floor_unique) simp_all
    then show ?thesis by (simp add: double_index_def binary64_half)
  qed
qed

lemma bucket_samples_example4:
  "bucket_samples [a, b, c, d] 2 0 = [a, b]" "bucket_samples [a, b, c, d] 2 (Suc 0) = [c, d]"
proof -
  have l: "length [a, b, c, d] = 4" by simp
  have u: "[0..<4] = [0, Suc 0, 2, 3]" by (simp add: upt_rec)
  show "bucket_samples [a, b, c, d] 2 0 = [a, b]"
    unfolding bucket_samples_def members_def l u by (simp add: double_index_4)
  show "bucket_samples [a, b, c, d] 2 (Suc 0) = [c, d]"
    unfolding bucket_samples_def members_def l u by (simp add: double_index_4)
qed

lemma powr_values2:
  "2 powr (- 2 :: real) = 1 / 4" "2 powr (- 54 :: real) = 1 / 2 ^ 54"
  "2 powr (- 55 :: real) = 1 / 2 ^ 55" "2 powr (- 24 :: real) = 1 / 2 ^ 24"
  "2 powr (- 25 :: real) = 1 / 2 ^ 25" "2 powr (- 26 :: real) = 1 / 2 ^ 26"
  "2 powr (- 27 :: real) = 1 / 2 ^ 27"
  by (simp_all add: powr_minus inverse_eq_divide)

lemma binary64_values:
  "binary64 0.1 = 3602879701896397 / 2 ^ 55"
  "binary64 (- 0.9) = - (8106479329266893 / 2 ^ 53)"
  "binary64 0.3 = 5404319552844595 / 2 ^ 54"
  "binary64 0.2 = 3602879701896397 / 2 ^ 54"
  "binary64 0.9 = 8106479329266893 / 2 ^ 53"
proof -
  have "binary64 0.1 =
        of_int (round_half_even (0.1 / 2 powr (of_int (- 4) - 52))) * 2 powr (of_int (- 4) - 52)"
    by (rule binary64_eval) (simp_all add: powr_values powr_values2)
  also have "\<dots> = 3602879701896397 / 2 ^ 55"
    by (simp add: powr_values powr_values2 round_half_even_def Let_def)
  finally show "binary64 0.1 = 3602879701896397 / 2 ^ 55" .
  have "binary64 (- 0.9) =
        of_int (round_half_even (- 0.9 / 2 powr (of_int (- 1) - 52))) * 2 powr (of_int (- 1) - 52)"
    by (rule binary64_eval_neg) (simp_all add: powr_values powr_values2)
  also have "\<dots> = - (8106479329266893 / 2 ^ 53)"
    by (simp add: powr_values powr_values2 round_half_even_def Let_def)
  finally show "binary64 (- 0.9) = - (8106479329266893 / 2 ^ 53)" .
  have "binary64 0.3 =
        of_int (round_half_even (0.3 / 2 powr (of_int (- 2) - 52))) * 2 powr (of_int (- 2) - 52)"
    by (rule binary64_eval) (simp_all add: powr_values powr_values2)
  also have "\<dots> = 5404319552844595 / 2 ^ 54"
    by (simp add: powr_values powr_values2 round_half_even_def Let_def)
  finally show "binary64 0.3 = 5404319552844595 / 2 ^ 54" .
  have "binary64 0.2 =
        of_int (round_half_even (0.2 / 2 powr (of_int (- 3) - 52))) * 2 powr (of_int (- 3) - 52)"
    by (rule binary64_eval) (simp_all add: powr_values powr_values2)
  also have "\<dots> = 3602879701896397 / 2 ^ 54"
    by (simp add: powr_values powr_values2 round_half_even_def Let_def)
  finally show "binary64 0.2 = 3602879701896397 / 2 ^ 54" .
  have "binary64 0.9 =
        of_int (round_half_even (0.9 / 2 powr (of_int (- 1) - 52))) * 2 powr (of_int (- 1) - 52)"
    by (rule binary64_eval) (simp_all add: powr_values powr_values2)
  also have "\<dots> = 8106479329266893 / 2 ^ 53"
    by (simp add: powr_values powr_values2 round_half_even_def Let_def)
  finally show "binary64 0.9 = 8106479329266893 / 2 ^ 53" .
qed

lemma float32_values:
  "float32 0.1 = Fin (13421773 / 2 ^ 27)"
  "float32 (- 0.9) = Fin (- (7549747 / 2 ^ 23))"
  "float32 0.3 = Fin (5033165 / 2 ^ 24)"
  "float32 0.2 = Fin (13421773 / 2 ^ 26)"
proof -
  have "binary32 (3602879701896397 / 2 ^ 55) =
        of_int (round_half_even ((3602879701896397 / 2 ^ 55) / 2 powr (of_int (- 4) - 23))) *
          2 powr (of_int (- 4) - 23)"
    by (rule binary32_eval) (simp_all add: powr_values powr_values2)
  also have "\<dots> = 13421773 / 2 ^ 27"
    by (simp add: powr_values powr_values2 round_half_even_def Let_def)
  finally show "float32 0.1 = Fin (13421773 / 2 ^ 27)"
    by (simp only: float32_def binary64_values)
  have "binary32 (- (8106479329266893 / 2 ^ 53)) =
        of_int (round_half_even ((- (8106479329266893 / 2 ^ 53)) / 2 powr (of_int (- 1) - 23))) *
          2 powr (of_int (- 1) - 23)"
    by (rule binary32_eval_neg) (simp_all add: powr_values powr_values2)
  also have "\<dots> = - (7549747 / 2 ^ 23)"
    by (simp add: powr_values powr_values2 round_half_even_def Let_def)
  finally show "float32 (- 0.9) = Fin (- (7549747 / 2 ^ 23))"
    by (simp only: float32_def binary64_values)
  have "binary32 (5404319552844595 / 2 ^ 54) =
        of_int (round_half_even ((5404319552844595 / 2 ^ 54) / 2 powr (of_int (- 2) - 23))) *
          2 powr (of_int (- 2) - 23)"
    by (rule binary32_eval) (simp_all add: powr_values powr_values2)
  also have "\<dots> = 5033165 / 2 ^ 24"
    by (simp add: powr_values powr_values2 round_half_even_def Let_def)
  finally show "float32 0.3 = Fin (5033165 / 2 ^ 24)"
    by (simp only: float32_def binary64_values)
  have "binary32 (3602879701896397 / 2 ^ 54) =
        of_int (round_half_even ((3602879701896397 / 2 ^ 54) / 2 powr (of_int (- 3) - 23))) *
          2 powr (of_int (- 3) - 23)"
    by (rule binary32_eval) (simp_all add: powr_values powr_values2)
  also have "\<dots> = 13421773 / 2 ^ 26"
    by (simp add: powr_values powr_values2 round_half_even_def Let_def)
  finally show "float32 0.2 = Fin (13421773 / 2 ^ 26)"
    by (simp only: float32_def binary64_values)
qed

lemma peak_example:
  "normalizeArray_body [float32 0.1, float32 (- 0.9), float32 0.3, float32 0.2] 2 True =
     Inr [Number (Fin (7549747 / 2 ^ 23)), Number (Fin (5033165 / 2 ^ 24))]"
proof -
  let ?e = "[Fin (13421773 / 2 ^ 27), Fin (- (7549747 / 2 ^ 23)), Fin (5033165 / 2 ^ 24),
             Fin (13421773 / 2 ^ 26)]"
  have e: "[float32 0.1, float32 (- 0.9), float32 0.3, float32 0.2] = ?e"
    by (simp only: float32_values)
  have u: "[0..<nat 2] = [0, Suc 0]" by (simp add: upt_rec)
  have "normalizeArray_body ?e 2 True =
        Inr (map (\<lambda>k. Number (peak_abs (bucket_samples ?e 2 k))) [0..<nat 2])"
    by (rule normalize_peak) simp_all
  also have "\<dots> = Inr [Number (Fin (7549747 / 2 ^ 23)), Number (Fin (5033165 / 2 ^ 24))]"
    unfolding u by (simp add: bucket_samples_example4 peak_abs_def)
  finally show ?thesis unfolding e .
qed

lemma peak_example_returned:
  "returned (normalizeArray
     \<lparr>ident = b, elems = [float32 0.1, float32 (- 0.9), float32 0.3, float32 0.2]\<rparr> 2 True False s) =
     Some [Number (Fin (7549747 / 2 ^ 23)), Number (Fin (5033165 / 2 ^ 24))]"
proof (rule returned_miss)
  show "False \<longrightarrow>
        cached s (ident \<lparr>ident = b, elems = [float32 0.1, float32 (- 0.9), float32 0.3, float32 0.2]\<rparr>)
          2 True = None"
    by simp
  show "normalizeArray_body
          (elems \<lparr>ident = b, elems = [float32 0.1, float32 (- 0.9), float32 0.3, float32 0.2]\<rparr>) 2 True =
        Inr [Number (Fin (7549747 / 2 ^ 23)), Number (Fin (5033165 / 2 ^ 24))]"
    unfolding Float32Array.select_convs by (rule peak_example)
qed

lemma mean_abs_zeros:
  assumes "xs \<noteq> []" "\<forall>x\<in>set xs. x = Fin 0"
  shows "mean_abs xs = Fin 0"
proof -
  have "xs = map Fin (replicate (length xs) 0)"
    using assms(2) by (intro nth_equalityI) simp_all
  moreover have "replicate (length xs) (0::real) \<noteq> []" using assms(1) by simp
  ultimately have "mean_abs xs =
      Fin (sum_list (map abs (replicate (length xs) (0::real))) / real (length (replicate (length xs) (0::real))))"
    using mean_abs_Fin [of "replicate (length xs) 0"] by simp
  then show ?thesis by (simp add: sum_list_replicate)
qed

lemma rounding_example_code:
  "mean_abs (bucket_samples (replicate 22 (Fin 0) @ [Fin 1] @ replicate 21 (Fin 0)) 30 15) = Fin 0"
proof (rule mean_abs_zeros)
  let ?d = "replicate 22 (Fin 0) @ [Fin 1] @ replicate 21 (Fin (0::real))"
  have l: "length ?d = 44" by simp
  have "23 \<in> set (members 44 30 44 15)"
    by (simp add: members_def double_index_44)
  then show "bucket_samples ?d 30 15 \<noteq> []"
    unfolding bucket_samples_def l by auto
  have z: "?d ! i = Fin 0" if "i < 44" "i \<noteq> 22" for i
    using that by (simp add: nth_append nth_Cons')
  show "\<forall>x\<in>set (bucket_samples ?d 30 15). x = Fin 0"
  proof
    fix x
    assume "x \<in> set (bucket_samples ?d 30 15)"
    then obtain i where i: "i < 44" "double_index 44 30 i = 15" "x = ?d ! i"
      unfolding bucket_samples_def l by (auto simp: members_def)
    have "i \<noteq> 22" using i(2) double_index_44(1) by auto
    then show "x = Fin 0" using i(1,3) z by simp
  qed
qed

lemma rounding_example_spec:
  "mean_abs (spec_bucket_samples (replicate 22 (Fin 0) @ [Fin 1] @ replicate 21 (Fin 0)) 30 15) =
     Fin (1 / 2)"
proof -
  let ?d = "replicate 22 (Fin 0) @ [Fin 1] @ replicate 21 (Fin (0::real))"
  have l: "length ?d = 44" by simp
  have "filter (\<lambda>i. bucket 44 30 i = 15) [0..<44] = [22, 23]"
    by (simp add: bucket_eq upt_rec)
  then have "spec_bucket_samples ?d 30 15 = [?d ! 22, ?d ! 23]"
    unfolding spec_bucket_samples_def l by simp
  also have "\<dots> = [Fin 1, Fin 0]"
    by (simp add: nth_append)
  finally show ?thesis by (simp add: mean_abs_def num_def)
qed





lemma normalizeArray_unmemoized_dataMap:
  "dataMap (snd (normalizeArray data m p False s)) = dataMap s"
  by (simp add: normalizeArray_unmemoized split: sum.splits)

lemma heap_initial: "heap initial = []"
  by (simp add: initial_def)

section \<open>The claims\<close>

text \<open>
  Claim C1, as amended. The claim asks for an \<^verbatim>\<open>InvalidArgument\<close> failure when
  \<open>m \<le> 0\<close> or the buffer is empty. The code validates nothing and has no such error.
  Its only failure is the \<^verbatim>\<open>RangeError\<close> of \<^verbatim>\<open>new Array(m)\<close>, raised when \<open>m < 0\<close>
  or \<open>m > 2^32 - 1\<close>: every failure is that error with such an \<open>m\<close>, a call with such
  an \<open>m\<close> that is not answered from the cache fails, and every call with
  \<open>0 \<le> m \<le> 2^32 - 1\<close> returns an array (also with \<open>m = 0\<close> and with an empty
  buffer).
\<close>

theorem normalizeArray_errors:
  "(fst (normalizeArray data m p z s) = Inl e \<longrightarrow> e = RangeError \<and> (m < 0 \<or> 2 ^ 32 - 1 < m)) \<and>
   (0 \<le> m \<and> m \<le> 2 ^ 32 - 1 \<longrightarrow> (\<exists>r. fst (normalizeArray data m p z s) = Inr r)) \<and>
   ((m < 0 \<or> 2 ^ 32 - 1 < m) \<and> (z \<longrightarrow> cached s (ident data) m p = None) \<longrightarrow>
      fst (normalizeArray data m p z s) = Inl RangeError)"
proof (intro conjI impI)
  assume "fst (normalizeArray data m p z s) = Inl e"
  then have "\<not> (0 \<le> m \<and> m \<le> 2 ^ 32 - 1)"
    using body_nonnegative [of m "elems data" p]
    by (auto simp: normalizeArray_fst split: option.splits if_splits)
  then show "m < 0 \<or> 2 ^ 32 - 1 < m" by linarith
  show "e = RangeError" by (cases e) simp
next
  assume "0 \<le> m \<and> m \<le> 2 ^ 32 - 1"
  then show "\<exists>r. fst (normalizeArray data m p z s) = Inr r"
    using body_nonnegative [of m "elems data" p]
    by (auto simp: normalizeArray_fst split: option.splits)
next
  assume a: "(m < 0 \<or> 2 ^ 32 - 1 < m) \<and> (z \<longrightarrow> cached s (ident data) m p = None)"
  then have "normalizeArray_body (elems data) m p = Inl RangeError"
    by (simp add: body_range_error)
  then show "fst (normalizeArray data m p z s) = Inl RangeError"
    using a by (simp add: returned_error)
qed

theorem normalizeArray_errors_witness:
  "fst (normalizeArray \<lparr>ident = 0, elems = [Fin 1]\<rparr> (- 1) True True initial) = Inl RangeError \<and>
   fst (normalizeArray \<lparr>ident = 0, elems = [Fin 1]\<rparr> 4294967296 True True initial) = Inl RangeError \<and>
   (\<exists>r. fst (normalizeArray \<lparr>ident = 0, elems = []\<rparr> 0 True True initial) = Inr r)"
  using normalizeArray_errors [of "\<lparr>ident = 0, elems = [Fin 1]\<rparr>" "- 1" True True initial RangeError]
        normalizeArray_errors [of "\<lparr>ident = 0, elems = [Fin 1]\<rparr>" 4294967296 True True initial RangeError]
        normalizeArray_errors [of "\<lparr>ident = 0, elems = []\<rparr>" 0 True True initial RangeError]
  by (auto simp: cached_initial)

text \<open>
  The claim as written fails on the code: \<open>m = 0\<close> on the buffer \<open>[1]\<close> returns
  \<^verbatim>\<open>[NaN]\<close>, and the empty buffer with \<open>m = 2\<close> returns \<^verbatim>\<open>[undefined, NaN]\<close>.
\<close>

theorem normalizeArray_no_validation_counterexample:
  "returned (normalizeArray \<lparr>ident = 0, elems = [Fin 1]\<rparr> 0 False False initial) = Some [Number NaN] \<and>
   returned (normalizeArray \<lparr>ident = 0, elems = []\<rparr> 2 False False initial) =
     Some [Undefined, Number NaN]"
proof -
  have a: "normalizeArray_body [Fin 1] 0 False = Inr [Number NaN]"
    by (rule normalize_zero) simp
  have u0: "upsample_value [] 2 0 = Undefined"
    by (simp add: upsample_value_def Let_def num_def jsub_Fin f32get_def)
  have u1: "upsample_value [] 2 (Suc 0) = Number NaN"
    by (simp add: upsample_value_def Let_def num_def jsub_Fin f32get_def)
  have "[0..<nat 2] = [0, 1]" by (simp add: upt_rec)
  then have b: "normalizeArray_body [] 2 False = Inr [Undefined, Number NaN]"
    by (simp add: normalize_upsample u0 u1)
  show ?thesis
    by (simp add: returned_miss a b)
qed

text \<open>
  Claim C2, as amended. For \<open>1 \<le> m \<le> n\<close> with \<open>m \<le> 2^32 - 1\<close> and
  \<open>n \<le> 2^52\<close>, a call in average mode that is not answered from the cache returns an
  array of length \<open>m\<close>. Every sample \<open>i\<close> is added to \<^verbatim>\<open>result[index]\<close> for the index
  that line 32 computes in double arithmetic, \<^verbatim>\<open>Math.floor(i * (m / n))\<close>, which lies
  from 0 to \<open>m - 1\<close>, and \<open>output[k]\<close> is the sum of the absolute values of the samples
  with index \<open>k\<close> divided by their number, in the arithmetic of JavaScript numbers: on
  finite samples, and at least one of them, the mean of the reals. The code has no test
  for a zero count: the quotient of no sample is \<open>0 / 0\<close> (lemma \<open>mean_abs_empty\<close>).
  With \<open>n * m \<le> 2^51\<close>, every index \<open>k < m\<close> is computed for at least one sample,
  so that no count is zero, and the index of sample \<open>i\<close> is \<open>floor(i * m / n)\<close>
  unless \<open>n\<close> divides \<open>i * m\<close>, where it is that quotient or one less.
\<close>

theorem downsample_average:
  assumes "1 \<le> m" and "m \<le> int (length (elems data))"
    and "m \<le> 2 ^ 32 - 1" and "length (elems data) \<le> 2 ^ 52"
    and "z \<longrightarrow> cached s (ident data) m False = None"
  shows "\<exists>out. returned (normalizeArray data m False z s) = Some out \<and> length out = nat m \<and>
           (\<forall>i<length (elems data).
              0 \<le> double_index (length (elems data)) m i \<and>
              double_index (length (elems data)) m i < m) \<and>
           (\<forall>k<nat m.
              out ! k = Number (mean_abs (bucket_samples (elems data) m k)) \<and>
              (\<forall>rs. rs \<noteq> [] \<and> bucket_samples (elems data) m k = map Fin rs \<longrightarrow>
                 out ! k = Number (Fin (sum_list (map abs rs) / real (length rs))))) \<and>
           (length (elems data) * nat m \<le> 2 ^ 51 \<longrightarrow>
              (\<forall>k<nat m. bucket_samples (elems data) m k \<noteq> []) \<and>
              (\<forall>i<length (elems data).
                 double_index (length (elems data)) m i = int (bucket (length (elems data)) m i) \<or>
                 double_index (length (elems data)) m i = int (bucket (length (elems data)) m i) - 1 \<and>
                 length (elems data) dvd i * nat m))"
proof -
  let ?out = "map (\<lambda>k. Number (mean_abs (bucket_samples (elems data) m k))) [0..<nat m]"
  have "normalizeArray_body (elems data) m False = Inr ?out"
    using assms(1,2,3,4) by (rule normalize_average)
  with assms(5) have r: "returned (normalizeArray data m False z s) = Some ?out"
    by (rule returned_miss)
  have i: "0 \<le> double_index (length (elems data)) m i \<and>
           double_index (length (elems data)) m i < m" if "i < length (elems data)" for i
    using double_index_range [OF assms(1,2,4) that] by simp
  have "?out ! k = Number (mean_abs (bucket_samples (elems data) m k)) \<and>
        (\<forall>rs. rs \<noteq> [] \<and> bucket_samples (elems data) m k = map Fin rs \<longrightarrow>
           ?out ! k = Number (Fin (sum_list (map abs rs) / real (length rs))))"
    if k: "k < nat m" for k
  proof (intro conjI allI impI)
    show v: "?out ! k = Number (mean_abs (bucket_samples (elems data) m k))"
      using k by simp
    fix rs
    assume e: "rs \<noteq> [] \<and> bucket_samples (elems data) m k = map Fin rs"
    then have "mean_abs (bucket_samples (elems data) m k) =
               Fin (sum_list (map abs rs) / real (length rs))"
      by (simp add: mean_abs_Fin)
    then show "?out ! k = Number (Fin (sum_list (map abs rs) / real (length rs)))"
      unfolding v by simp
  qed
  then have K: "\<forall>k<nat m.
        ?out ! k = Number (mean_abs (bucket_samples (elems data) m k)) \<and>
        (\<forall>rs. rs \<noteq> [] \<and> bucket_samples (elems data) m k = map Fin rs \<longrightarrow>
           ?out ! k = Number (Fin (sum_list (map abs rs) / real (length rs))))"
    by blast
  have L: "length ?out = nat m" by simp
  have I: "\<forall>i<length (elems data).
              0 \<le> double_index (length (elems data)) m i \<and>
              double_index (length (elems data)) m i < m"
    using i by blast
  have S: "(\<forall>k<nat m. bucket_samples (elems data) m k \<noteq> []) \<and>
           (\<forall>i<length (elems data).
              double_index (length (elems data)) m i = int (bucket (length (elems data)) m i) \<or>
              double_index (length (elems data)) m i = int (bucket (length (elems data)) m i) - 1 \<and>
              length (elems data) dvd i * nat m)"
    if s: "length (elems data) * nat m \<le> 2 ^ 51"
  proof (intro conjI allI impI)
    fix k
    assume "k < nat m"
    with assms(1,2) s have "members (length (elems data)) m (length (elems data)) k \<noteq> []"
      by (rule members_nonempty)
    then show "bucket_samples (elems data) m k \<noteq> []" by (simp add: bucket_samples_def)
  next
    fix i
    assume i: "i < length (elems data)"
    have "real (length (elems data) * nat m) \<le> real (2 ^ 51)" using s by (simp only: of_nat_le_iff)
    then have "real (length (elems data)) * real_of_int m \<le> 2 ^ 51" using assms(1) by simp
    with assms(1,2)
    show "double_index (length (elems data)) m i = int (bucket (length (elems data)) m i) \<or>
          double_index (length (elems data)) m i = int (bucket (length (elems data)) m i) - 1 \<and>
          length (elems data) dvd i * nat m"
      using i by (rule double_index_near)
  qed
  show ?thesis
    using r L I K S by (intro exI [of _ ?out] conjI impI) blast+
qed

theorem downsample_average_witness:
  "\<exists>out. returned (normalizeArray \<lparr>ident = 0, elems = [Fin 1, Fin (- 3), Fin 2]\<rparr> 2 False True initial) =
           Some out \<and> length out = 2 \<and> out ! 0 = Number (Fin 2) \<and> out ! 1 = Number (Fin 2)"
proof -
  let ?d = "\<lparr>ident = 0, elems = [Fin 1, Fin (- 3), Fin 2]\<rparr>"
  have h: "1 \<le> (2::int)" "2 \<le> int (length (elems ?d))" "(2::int) \<le> 2 ^ 32 - 1"
    "length (elems ?d) \<le> 2 ^ 52" "True \<longrightarrow> cached initial (ident ?d) 2 False = None"
    by (simp_all add: cached_initial)
  from downsample_average [OF h]
  obtain out where o: "returned (normalizeArray ?d 2 False True initial) = Some out"
    "length out = nat 2"
    "\<forall>k<nat 2. out ! k = Number (mean_abs (bucket_samples (elems ?d) 2 k)) \<and>
       (\<forall>rs. rs \<noteq> [] \<and> bucket_samples (elems ?d) 2 k = map Fin rs \<longrightarrow>
          out ! k = Number (Fin (sum_list (map abs rs) / real (length rs))))"
    by blast
  have "out ! 0 = Number (mean_abs [Fin 1, Fin (- 3)])"
    using o(3) by (simp add: bucket_samples_example)
  moreover have "out ! 1 = Number (mean_abs [Fin 2])"
    using o(3) by (simp add: bucket_samples_example)
  ultimately show ?thesis using o(1,2) by (simp add: mean_abs_def num_def)
qed

text \<open>
  The claim as written fails on the code. With \<open>n = 44\<close> and \<open>m = 30\<close>, the claim's
  formula maps the samples 22 and 23 to bucket 15; line 32 maps sample 22 to index 14
  (\<^verbatim>\<open>22 * (30 / 44)\<close> is \<^verbatim>\<open>14.999999999999998\<close>). On the buffer whose sample 22 is 1 and
  whose other samples are 0, \<open>output[15]\<close> is 0, and the mean of the absolute values of
  the samples of bucket 15 is \<open>1 / 2\<close>.
\<close>

theorem bucket_rounding_counterexample:
  "\<exists>out. returned (normalizeArray
              \<lparr>ident = 0, elems = replicate 22 (Fin 0) @ [Fin 1] @ replicate 21 (Fin 0)\<rparr>
              30 False False initial) = Some out \<and>
         out ! 15 = Number (Fin 0) \<and>
         mean_abs (spec_bucket_samples (replicate 22 (Fin 0) @ [Fin 1] @ replicate 21 (Fin 0)) 30 15) =
           Fin (1 / 2) \<and>
         double_index 44 30 22 = 14 \<and> bucket 44 30 22 = 15"
proof -
  let ?d = "replicate 22 (Fin 0) @ [Fin 1] @ replicate 21 (Fin 0)"
  let ?out = "map (\<lambda>k. Number (mean_abs (bucket_samples ?d 30 k))) [0..<nat 30]"
  have "normalizeArray_body ?d 30 False = Inr ?out"
    by (rule normalize_average) simp_all
  then have r: "returned (normalizeArray \<lparr>ident = 0, elems = ?d\<rparr> 30 False False initial) = Some ?out"
    by (simp add: returned_miss)
  have "?out ! 15 = Number (mean_abs (bucket_samples ?d 30 15))"
    by simp
  then have v: "?out ! 15 = Number (Fin 0)"
    by (simp only: rounding_example_code)
  have b: "bucket 44 30 22 = 15" by (simp add: bucket_eq)
  show ?thesis
    using r v rounding_example_spec double_index_44(1) b by blast
qed

text \<open>
  Claim C3, as amended. For \<open>1 \<le> m \<le> n\<close> with \<open>m \<le> 2^32 - 1\<close> and
  \<open>n \<le> 2^52\<close>, and a buffer with no \<open>NaN\<close> sample, a call in peak mode that is not
  answered from the cache returns an array of length \<open>m\<close>; every \<open>output[k]\<close> is a
  number \<open>v \<ge> 0\<close>, the largest absolute value of the samples for which line 32
  computes the index \<open>k\<close> in double arithmetic: it is at least the absolute value of
  each of them and is that of one of them, or 0 if there is none (with
  \<open>n * m \<le> 2^51\<close> there is one). A \<^verbatim>\<open>Float32Array\<close>
  made from \<open>[0.1, -0.9, 0.3, 0.2]\<close> holds the nearest 32-bit floats, and with \<open>m = 2\<close>
  the result is the pair of the absolute values it holds for \<open>-0.9\<close> and \<open>0.3\<close>, which
  are \<^verbatim>\<open>0.8999999761581421\<close> and \<^verbatim>\<open>0.30000001192092896\<close>, within \<open>10^-7\<close> of 0.9 and
  0.3.
\<close>

theorem downsample_peak:
  "(1 \<le> m \<and> m \<le> int (length (elems data)) \<and> m \<le> 2 ^ 32 - 1 \<and>
    length (elems data) \<le> 2 ^ 52 \<and> NaN \<notin> set (elems data) \<and>
    (z \<longrightarrow> cached s (ident data) m True = None) \<longrightarrow>
      (\<exists>out. returned (normalizeArray data m True z s) = Some out \<and> length out = nat m \<and>
         (\<forall>k<nat m. \<exists>v.
            out ! k = Number v \<and> v = peak_abs (bucket_samples (elems data) m k) \<and>
            jge v (Fin 0) \<and>
            (if bucket_samples (elems data) m k = [] then v = Fin 0
             else v \<in> Math_abs ` set (bucket_samples (elems data) m k)) \<and>
            (\<forall>x\<in>set (bucket_samples (elems data) m k). jge v (Math_abs x)) \<and>
            (length (elems data) * nat m \<le> 2 ^ 51 \<longrightarrow> bucket_samples (elems data) m k \<noteq> [])))) \<and>
   returned (normalizeArray
     \<lparr>ident = b, elems = [float32 0.1, float32 (- 0.9), float32 0.3, float32 0.2]\<rparr> 2 True False s) =
     Some [Number (Fin (7549747 / 2 ^ 23)), Number (Fin (5033165 / 2 ^ 24))] \<and>
   \<bar>7549747 / 2 ^ 23 - 0.9 :: real\<bar> < 1 / 10 ^ 7 \<and>
   \<bar>5033165 / 2 ^ 24 - 0.3 :: real\<bar> < 1 / 10 ^ 7"
proof (intro conjI impI)
  assume a: "1 \<le> m \<and> m \<le> int (length (elems data)) \<and> m \<le> 2 ^ 32 - 1 \<and>
    length (elems data) \<le> 2 ^ 52 \<and> NaN \<notin> set (elems data) \<and>
    (z \<longrightarrow> cached s (ident data) m True = None)"
  let ?out = "map (\<lambda>k. Number (peak_abs (bucket_samples (elems data) m k))) [0..<nat m]"
  have "normalizeArray_body (elems data) m True = Inr ?out"
    using a by (simp add: normalize_peak)
  then have r: "returned (normalizeArray data m True z s) = Some ?out"
    using a by (simp add: returned_miss)
  have "\<exists>v. ?out ! k = Number v \<and> v = peak_abs (bucket_samples (elems data) m k) \<and>
            jge v (Fin 0) \<and>
            (if bucket_samples (elems data) m k = [] then v = Fin 0
             else v \<in> Math_abs ` set (bucket_samples (elems data) m k)) \<and>
            (\<forall>x\<in>set (bucket_samples (elems data) m k). jge v (Math_abs x)) \<and>
            (length (elems data) * nat m \<le> 2 ^ 51 \<longrightarrow> bucket_samples (elems data) m k \<noteq> [])"
    if k: "k < nat m" for k
  proof -
    have ne: "bucket_samples (elems data) m k \<noteq> []" if "length (elems data) * nat m \<le> 2 ^ 51"
      using members_nonempty [of m "length (elems data)" k] a that k
      by (simp add: bucket_samples_def)
    show ?thesis
    proof (cases "bucket_samples (elems data) m k = []")
      case True
      have "peak_abs [] = Fin 0" by (simp add: peak_abs_def)
      then show ?thesis using k True ne by auto
    next
      case False
      have nn: "NaN \<notin> set (bucket_samples (elems data) m k)"
        using a set_bucket_samples [of "elems data" m k] by auto
      show ?thesis
        using peak_abs_max [OF nn False] False k by simp
    qed
  qed
  then have K: "\<forall>k<nat m. \<exists>v.
            ?out ! k = Number v \<and> v = peak_abs (bucket_samples (elems data) m k) \<and>
            jge v (Fin 0) \<and>
            (if bucket_samples (elems data) m k = [] then v = Fin 0
             else v \<in> Math_abs ` set (bucket_samples (elems data) m k)) \<and>
            (\<forall>x\<in>set (bucket_samples (elems data) m k). jge v (Math_abs x)) \<and>
            (length (elems data) * nat m \<le> 2 ^ 51 \<longrightarrow> bucket_samples (elems data) m k \<noteq> [])"
    by blast
  have L: "length ?out = nat m" by simp
  show "\<exists>out. returned (normalizeArray data m True z s) = Some out \<and> length out = nat m \<and>
         (\<forall>k<nat m. \<exists>v.
            out ! k = Number v \<and> v = peak_abs (bucket_samples (elems data) m k) \<and>
            jge v (Fin 0) \<and>
            (if bucket_samples (elems data) m k = [] then v = Fin 0
             else v \<in> Math_abs ` set (bucket_samples (elems data) m k)) \<and>
            (\<forall>x\<in>set (bucket_samples (elems data) m k). jge v (Math_abs x)) \<and>
            (length (elems data) * nat m \<le> 2 ^ 51 \<longrightarrow> bucket_samples (elems data) m k \<noteq> []))"
    using r L K by (intro exI [of _ ?out] conjI)
next
  show "returned (normalizeArray
     \<lparr>ident = b, elems = [float32 0.1, float32 (- 0.9), float32 0.3, float32 0.2]\<rparr> 2 True False s) =
     Some [Number (Fin (7549747 / 2 ^ 23)), Number (Fin (5033165 / 2 ^ 24))]"
    by (rule peak_example_returned)
  show "\<bar>7549747 / 2 ^ 23 - 0.9 :: real\<bar> < 1 / 10 ^ 7" by simp
  show "\<bar>5033165 / 2 ^ 24 - 0.3 :: real\<bar> < 1 / 10 ^ 7" by simp
qed

theorem downsample_peak_witness:
  "\<exists>out v. returned (normalizeArray \<lparr>ident = 0, elems = [Fin 1, Fin (- 3), Fin 2]\<rparr> 2 True True initial) =
           Some out \<and> length out = 2 \<and> out ! 0 = Number v \<and> jge v (Fin 0)"
proof -
  let ?d = "\<lparr>ident = 0, elems = [Fin 1, Fin (- 3), Fin 2]\<rparr>"
  have h: "1 \<le> (2::int) \<and> 2 \<le> int (length (elems ?d)) \<and> (2::int) \<le> 2 ^ 32 - 1 \<and>
           length (elems ?d) \<le> 2 ^ 52 \<and> NaN \<notin> set (elems ?d) \<and>
           (True \<longrightarrow> cached initial (ident ?d) 2 True = None)"
    by (simp add: cached_initial)
  from downsample_peak [of 2 ?d True initial 0, THEN conjunct1, THEN mp, OF h]
  obtain out where o: "returned (normalizeArray ?d 2 True True initial) = Some out"
    "length out = nat 2"
    "\<forall>k<nat 2. \<exists>v. out ! k = Number v \<and>
              v = peak_abs (bucket_samples (elems ?d) 2 k) \<and> jge v (Fin 0) \<and>
              (if bucket_samples (elems ?d) 2 k = [] then v = Fin 0
               else v \<in> Math_abs ` set (bucket_samples (elems ?d) 2 k)) \<and>
              (\<forall>x\<in>set (bucket_samples (elems ?d) 2 k). jge v (Math_abs x)) \<and>
              (length (elems ?d) * nat 2 \<le> 2 ^ 51 \<longrightarrow> bucket_samples (elems ?d) 2 k \<noteq> [])"
    by blast
  have "(0::nat) < nat 2" by simp
  with o(3) obtain v where "out ! 0 = Number v" "jge v (Fin 0)" by blast
  then show ?thesis using o(1,2) by auto
qed

text \<open>
  The claim as written fails on the code: a \<open>NaN\<close> sample makes the output of its
  bucket \<open>NaN\<close>, which is not \<open>\<ge> 0\<close>; and the result on the example buffer is not
  the pair of the doubles 0.9 and 0.3.
\<close>

theorem downsample_peak_counterexample:
  "returned (normalizeArray \<lparr>ident = 0, elems = [NaN]\<rparr> 1 True False initial) = Some [Number NaN] \<and>
   \<not> jge NaN (Fin 0) \<and>
   returned (normalizeArray
     \<lparr>ident = 0, elems = [float32 0.1, float32 (- 0.9), float32 0.3, float32 0.2]\<rparr> 2 True False initial) \<noteq>
     Some [Number (Fin (binary64 0.9)), Number (Fin (binary64 0.3))]"
proof -
  have "normalizeArray_body [NaN] (int (length [NaN])) True = Inr (map (\<lambda>x. Number (Math_abs x)) [NaN])"
    by (rule normalize_same_length) simp
  then have "normalizeArray_body [NaN] 1 True = Inr [Number NaN]" by simp
  then have n: "returned (normalizeArray \<lparr>ident = 0, elems = [NaN]\<rparr> 1 True False initial) =
                Some [Number NaN]"
    by (simp add: returned_miss)
  have "(7549747 / 2 ^ 23 :: real) \<noteq> 8106479329266893 / 2 ^ 53" by simp
  then have "Some [Number (Fin (7549747 / 2 ^ 23)), Number (Fin (5033165 / 2 ^ 24))] \<noteq>
             Some [Number (Fin (binary64 0.9)), Number (Fin (binary64 0.3))]"
    by (simp only: binary64_values) simp
  then show ?thesis
    unfolding peak_example_returned using n by simp
qed

text \<open>
  Claim C4, as amended. Every call of \<^verbatim>\<open>drawSpeechVisual\<close> calls
  \<^verbatim>\<open>normalizeArray(data, 10, true)\<close>, with memoization disabled (the fourth argument
  is left at its default \<^verbatim>\<open>false\<close>): the call always succeeds and creates a new array,
  of length 10 (for a buffer of at most \<open>2^52\<close> samples, which bounds the rounding of
  line 32), and the cache is neither read nor written, whatever it holds.
\<close>

theorem drawSpeechVisual_summary:
  "\<exists>out. snd (snd (drawSpeechVisual canvas ctx data speakingState now s)) =
           snd (normalizeArray data 10 True False s) \<and>
         returned (normalizeArray data 10 True False s) = Some out \<and>
         (length (elems data) \<le> 2 ^ 52 \<longrightarrow> length out = 10) \<and>
         heap (snd (snd (drawSpeechVisual canvas ctx data speakingState now s))) = heap s @ [out] \<and>
         dataMap (snd (snd (drawSpeechVisual canvas ctx data speakingState now s))) = dataMap s \<and>
         (\<forall>b m p. cached (snd (snd (drawSpeechVisual canvas ctx data speakingState now s))) b m p =
                  cached s b m p)"
proof -
  obtain out where o: "normalizeArray_body (elems data) 10 True = Inr out"
    using body_nonnegative [of 10 "elems data" True] by auto
  have l: "length out = 10" if "length (elems data) \<le> 2 ^ 52"
    using body_length [of 10 "elems data" True] that o by auto
  have "returned (normalizeArray data 10 True False s) = Some out"
    using o(1) by (simp add: returned_miss)
  moreover have "heap (snd (normalizeArray data 10 True False s)) = heap s @ [out]"
    using o(1) by (simp add: normalizeArray_heap)
  ultimately show ?thesis
    using l
    by (simp add: drawSpeechVisual_eq normalizeArray_unmemoized_dataMap normalizeArray_cached)
qed

theorem drawSpeechVisual_summary_witness:
  "\<exists>out. returned (normalizeArray \<lparr>ident = 0, elems = [Fin 0]\<rparr> 10 True False initial) = Some out \<and>
         length out = 10"
  using drawSpeechVisual_summary [of "\<lparr>width = 300, height = 150\<rparr>" "[]" "\<lparr>ident = 0, elems = [Fin 0]\<rparr>"
          user "\<lambda>i. 0" initial]
  by auto

text \<open>
  The claim as written fails on the code: after a draw on a fresh cache the entry of the
  buffer, 10 and peak mode is absent, where a memoized call populates it.
\<close>

theorem drawSpeechVisual_not_memoized_counterexample:
  "cached (snd (snd (drawSpeechVisual \<lparr>width = 300, height = 150\<rparr> [] \<lparr>ident = 0, elems = [Fin 0]\<rparr>
                       user (\<lambda>i. 0) initial))) 0 10 True = None \<and>
   cached (snd (normalizeArray \<lparr>ident = 0, elems = [Fin 0]\<rparr> 10 True True initial)) 0 10 True = Some 0"
proof -
  obtain out where "normalizeArray_body [Fin 0] 10 True = Inr out"
    using body_nonnegative [of 10 "[Fin 0]" True] by auto
  then show ?thesis
    by (simp add: drawSpeechVisual_eq normalizeArray_cached cached_initial heap_initial)
qed




text \<open>
  Claim C6. In a state where every cached address is allocated, let a memoized call for
  a buffer instance, \<open>m\<close> and a mode return the array at address \<open>r\<close>. Then, after any
  sequence \<open>cs\<close> of further calls, a memoized call with the same instance (whatever its
  elements are by then), the same \<open>m\<close> and the same mode returns the same address \<open>r\<close>
  and changes nothing, and the array there has the length and the values it had when
  first returned. The first call populates no entry of another \<open>m\<close> or mode; and a
  memoized call with the same instance and another \<open>m\<close> or mode, whose own entry is not
  populated, returns a newly created array, at an address other than \<open>r\<close>, computed from
  its own arguments.
\<close>

theorem memoized_call_reuse:
  assumes "cache_ok s" and "ident data' = ident data"
    and "fst (normalizeArray data m p True s) = Inr r"
  shows "normalizeArray data' m p True (calls cs (snd (normalizeArray data m p True s))) =
           (Inr r, calls cs (snd (normalizeArray data m p True s))) \<and>
         returned (normalizeArray data m p True s) \<noteq> None \<and>
         returned (normalizeArray data' m p True (calls cs (snd (normalizeArray data m p True s)))) =
           returned (normalizeArray data m p True s) \<and>
         (\<forall>m' p'. (m', p') \<noteq> (m, p) \<longrightarrow>
            cached (snd (normalizeArray data m p True s)) (ident data) m' p' =
            cached s (ident data) m' p') \<and>
         (\<forall>m' p' out'.
            (m', p') \<noteq> (m, p) \<and> cached s (ident data) m' p' = None \<and>
            normalizeArray_body (elems data') m' p' = Inr out' \<longrightarrow>
              fst (normalizeArray data' m' p' True (snd (normalizeArray data m p True s))) =
                Inr (length (heap (snd (normalizeArray data m p True s)))) \<and>
              length (heap (snd (normalizeArray data m p True s))) \<noteq> r \<and>
              returned (normalizeArray data' m' p' True (snd (normalizeArray data m p True s))) =
                Some out')"
proof -
  let ?s1 = "snd (normalizeArray data m p True s)"
  let ?s2 = "calls cs ?s1"
  have ok1: "cache_ok ?s1" using assms(1) by (rule cache_ok_normalizeArray)
  have c1: "cached ?s1 (ident data) m p = Some r"
    using assms(3)
    by (auto simp: normalizeArray_fst normalizeArray_cached split: option.splits sum.splits)
  have r1: "r < length (heap ?s1)" using ok1 c1 by (auto simp: cache_ok_def)
  have c2: "cached ?s2 (ident data') m p = Some r"
    unfolding assms(2) using c1 by (rule calls_cached)
  have hit: "normalizeArray data' m p True ?s2 = (Inr r, ?s2)"
    using c2 by (rule normalizeArray_hit)
  have h2: "r < length (heap ?s2)" "heap ?s2 ! r = heap ?s1 ! r"
    using calls_heap [OF r1, of cs] by simp_all
  have ret1: "returned (normalizeArray data m p True s) = Some (heap ?s1 ! r)"
    using assms(3) r1 by (simp add: returned_def)
  have ret2: "returned (normalizeArray data' m p True ?s2) = Some (heap ?s1 ! r)"
    unfolding hit using h2 by (simp add: returned_def)
  have other: "cached ?s1 (ident data) m' p' = cached s (ident data) m' p'"
    if "(m', p') \<noteq> (m, p)" for m' p'
    using that by (auto simp: normalizeArray_cached)
  have fresh: "fst (normalizeArray data' m' p' True ?s1) = Inr (length (heap ?s1)) \<and>
               length (heap ?s1) \<noteq> r \<and>
               returned (normalizeArray data' m' p' True ?s1) = Some out'"
    if "(m', p') \<noteq> (m, p) \<and> cached s (ident data) m' p' = None \<and>
        normalizeArray_body (elems data') m' p' = Inr out'" for m' p' out'
  proof -
    have miss: "cached ?s1 (ident data') m' p' = None"
      unfolding assms(2) using that other [of m' p'] by simp
    have "fst (normalizeArray data' m' p' True ?s1) = Inr (length (heap ?s1))"
      using miss that by (simp add: normalizeArray_fst)
    moreover have "returned (normalizeArray data' m' p' True ?s1) = Some out'"
      using miss that by (simp add: returned_miss)
    ultimately show ?thesis using r1 by simp
  qed
  show ?thesis
    using hit ret1 ret2 other fresh by (intro conjI allI impI) simp_all
qed

theorem memoized_call_reuse_witness:
  "normalizeArray \<lparr>ident = 7, elems = [Fin 5]\<rparr> 1 True True
     (snd (normalizeArray \<lparr>ident = 7, elems = [Fin 3]\<rparr> 1 True True initial)) =
   (Inr 0, snd (normalizeArray \<lparr>ident = 7, elems = [Fin 3]\<rparr> 1 True True initial)) \<and>
   returned (normalizeArray \<lparr>ident = 7, elems = [Fin 5]\<rparr> 1 True True
     (snd (normalizeArray \<lparr>ident = 7, elems = [Fin 3]\<rparr> 1 True True initial))) =
   Some [Number (Fin 3)]"
proof -
  have b: "normalizeArray_body [Fin 3] 1 True = Inr [Number (Fin 3)]"
    using normalize_same_length [of "[Fin 3]" True] by simp
  have f: "fst (normalizeArray \<lparr>ident = 7, elems = [Fin 3]\<rparr> 1 True True initial) = Inr 0"
    by (simp add: normalizeArray_fst cached_initial heap_initial b)
  have r: "returned (normalizeArray \<lparr>ident = 7, elems = [Fin 3]\<rparr> 1 True True initial) =
           Some [Number (Fin 3)]"
    by (simp add: returned_miss cached_initial b)
  have i: "ident \<lparr>ident = 7, elems = [Fin 5]\<rparr> = ident \<lparr>ident = 7, elems = [Fin 3]\<rparr>"
    by simp
  note M = memoized_call_reuse [OF cache_ok_initial i f, of "[]", unfolded calls.simps]
  have A: "normalizeArray \<lparr>ident = 7, elems = [Fin 5]\<rparr> 1 True True
     (snd (normalizeArray \<lparr>ident = 7, elems = [Fin 3]\<rparr> 1 True True initial)) =
   (Inr 0, snd (normalizeArray \<lparr>ident = 7, elems = [Fin 3]\<rparr> 1 True True initial))"
    by (rule M [THEN conjunct1])
  have C: "returned (normalizeArray \<lparr>ident = 7, elems = [Fin 5]\<rparr> 1 True True
     (snd (normalizeArray \<lparr>ident = 7, elems = [Fin 3]\<rparr> 1 True True initial))) =
     returned (normalizeArray \<lparr>ident = 7, elems = [Fin 3]\<rparr> 1 True True initial)"
    by (rule M [THEN conjunct2, THEN conjunct2, THEN conjunct1])
  show ?thesis
  proof (intro conjI)
    show "normalizeArray \<lparr>ident = 7, elems = [Fin 5]\<rparr> 1 True True
     (snd (normalizeArray \<lparr>ident = 7, elems = [Fin 3]\<rparr> 1 True True initial)) =
   (Inr 0, snd (normalizeArray \<lparr>ident = 7, elems = [Fin 3]\<rparr> 1 True True initial))"
      by (rule A)
    show "returned (normalizeArray \<lparr>ident = 7, elems = [Fin 5]\<rparr> 1 True True
     (snd (normalizeArray \<lparr>ident = 7, elems = [Fin 3]\<rparr> 1 True True initial))) =
   Some [Number (Fin 3)]"
      by (rule trans [OF C r])
  qed
qed

text \<open>
  Claim C7. With \<open>m = n\<close> (and \<open>n \<le> 2^32 - 1\<close>, the largest length of an array), a
  call that is not answered from the cache returns, in peak mode and in average mode
  alike (\<open>p\<close> is the mode), the array of the absolute values of the samples:
  \<open>output[i] = abs(buffer[i])\<close> for every index. The quotient \<open>m / n\<close> is 1 and the
  products \<open>i * 1\<close> are exact, so line 32 computes the index \<open>i\<close>.
\<close>

theorem same_length_abs:
  assumes "m = int (length (elems data))" and "m \<le> 2 ^ 32 - 1"
    and "z \<longrightarrow> cached s (ident data) m p = None"
  shows "returned (normalizeArray data m p z s) = Some (map (\<lambda>x. Number (Math_abs x)) (elems data))"
  using assms(3)
proof (rule returned_miss)
  show "normalizeArray_body (elems data) m p = Inr (map (\<lambda>x. Number (Math_abs x)) (elems data))"
    using assms(2) unfolding assms(1) by (rule normalize_same_length)
qed

theorem same_length_abs_witness:
  "returned (normalizeArray \<lparr>ident = 0, elems = [Fin (- 2), Fin 3]\<rparr> 2 False True initial) =
     Some [Number (Fin 2), Number (Fin 3)] \<and>
   returned (normalizeArray \<lparr>ident = 0, elems = [Fin (- 2), Fin 3]\<rparr> 2 True True initial) =
     Some [Number (Fin 2), Number (Fin 3)]"
  using same_length_abs [of 2 "\<lparr>ident = 0, elems = [Fin (- 2), Fin 3]\<rparr>" True initial False]
        same_length_abs [of 2 "\<lparr>ident = 0, elems = [Fin (- 2), Fin 3]\<rparr>" True initial True]
  by (auto simp: cached_initial)

text \<open>
  Claim C8. The drawing calls that \<^verbatim>\<open>drawSpeechVisual\<close> emits on a context are the same
  for any two buffers, any two speaking-state tags and any two states of the cache, given
  the same canvas dimensions and the same readings of the clock.
\<close>

theorem drawSpeechVisual_geometry:
  "fst (snd (drawSpeechVisual canvas ctx data speakingState now s)) =
   fst (snd (drawSpeechVisual canvas ctx data' speakingState' now s'))"
  by (simp only: drawSpeechVisual_eq fst_conv snd_conv)

text \<open>
  Claim C9. Every call of \<^verbatim>\<open>drawSpeechVisual\<close> returns nothing and appends to the context:
  \<^verbatim>\<open>clearRect(0, 0, width, height)\<close>, one \<^verbatim>\<open>beginPath\<close>, a \<^verbatim>\<open>moveTo\<close> to the point of
  step 0, a \<^verbatim>\<open>lineTo\<close> to the point of each of the steps 1 to 50, one \<^verbatim>\<open>closePath\<close>, the
  fill style and one \<^verbatim>\<open>fill\<close>. Step \<open>i\<close> is at the angle \<open>2 * pi * i / 50\<close>, so the
  \<open>numberOfPoints + 1\<close> steps are evenly spaced and the last one is back at the start
  angle: with the same clock reading, the last point is the first. The cache is unchanged
  and no array that existed before is changed.
\<close>

theorem drawSpeechVisual_frame:
  "(\<exists>s'. drawSpeechVisual canvas ctx data speakingState now s =
      (Inr (),
       ctx @ [clearRect 0 0 (real (width canvas)) (real (height canvas)), beginPath,
              moveTo (fst (path_point canvas now 0)) (snd (path_point canvas now 0))] @
             map (\<lambda>i. lineTo (fst (path_point canvas now i)) (snd (path_point canvas now i)))
               [1..<Suc numberOfPoints] @
             [closePath, fillStyle ''black'', fill],
       s') \<and>
      dataMap s' = dataMap s \<and> take (length (heap s)) (heap s') = heap s) \<and>
   length [1..<Suc numberOfPoints] = 50 \<and>
   (\<forall>i. path_point canvas now i =
      (real (width canvas) / 2 +
         cos (2 * pi * real i / 50) *
           (40 + 5 * sin (real_of_int (now i) / 200 + 3 * (2 * pi * real i / 50))),
       real (height canvas) / 2 +
         sin (2 * pi * real i / 50) *
           (40 + 5 * sin (real_of_int (now i) / 200 + 3 * (2 * pi * real i / 50))))) \<and>
   (now numberOfPoints = now 0 \<longrightarrow>
      path_point canvas now numberOfPoints = path_point canvas now 0)"
proof (intro conjI allI impI)
  have "take (length (heap s)) (heap (snd (normalizeArray data 10 True False s))) = heap s"
    by (simp add: normalizeArray_heap split: sum.splits)
  then show "\<exists>s'. drawSpeechVisual canvas ctx data speakingState now s =
      (Inr (),
       ctx @ [clearRect 0 0 (real (width canvas)) (real (height canvas)), beginPath,
              moveTo (fst (path_point canvas now 0)) (snd (path_point canvas now 0))] @
             map (\<lambda>i. lineTo (fst (path_point canvas now i)) (snd (path_point canvas now i)))
               [1..<Suc numberOfPoints] @
             [closePath, fillStyle ''black'', fill],
       s') \<and>
      dataMap s' = dataMap s \<and> take (length (heap s)) (heap s') = heap s"
    unfolding drawSpeechVisual_eq path_ops
    by (simp add: normalizeArray_unmemoized_dataMap)
  show "length [1..<Suc numberOfPoints] = 50" by (simp add: numberOfPoints_def)
  show "path_point canvas now i =
      (real (width canvas) / 2 +
         cos (2 * pi * real i / 50) *
           (40 + 5 * sin (real_of_int (now i) / 200 + 3 * (2 * pi * real i / 50))),
       real (height canvas) / 2 +
         sin (2 * pi * real i / 50) *
           (40 + 5 * sin (real_of_int (now i) / 200 + 3 * (2 * pi * real i / 50))))" for i
    by (simp add: path_point_def numberOfPoints_def Let_def mult.commute)
  show "path_point canvas now numberOfPoints = path_point canvas now 0"
    if "now numberOfPoints = now 0"
    using that by (rule path_point_closed)
qed

theorem drawSpeechVisual_frame_witness:
  "path_point \<lparr>width = 300, height = 150\<rparr> (\<lambda>i. 1000) numberOfPoints =
   path_point \<lparr>width = 300, height = 150\<rparr> (\<lambda>i. 1000) 0"
  using drawSpeechVisual_frame [of "\<lparr>width = 300, height = 150\<rparr>" "[]" "\<lparr>ident = 0, elems = []\<rparr>"
          ai "\<lambda>i. 1000" initial, THEN conjunct2, THEN conjunct2, THEN conjunct2]
  by simp

text \<open>
  Claim C10, as amended. For every buffer and every integer \<open>m\<close> with
  \<open>0 \<le> m \<le> 2^32 - 1\<close>, \<^verbatim>\<open>normalizeArray\<close> returns an array and raises nothing (the
  model is a total function, each loop a fold over a finite range). When the call is not
  answered from the cache: on a non-empty buffer with \<open>m = 0\<close> the array is \<^verbatim>\<open>[NaN]\<close>,
  of length 1; on the empty buffer with \<open>m \<ge> 1\<close> it has length \<open>m\<close> and each entry is
  \<^verbatim>\<open>undefined\<close> or \<^verbatim>\<open>NaN\<close>.
\<close>

theorem normalizeArray_total:
  "0 \<le> m \<and> m \<le> 2 ^ 32 - 1 \<longrightarrow>
     (\<exists>r. fst (normalizeArray data m p z s) = Inr r) \<and>
     ((z \<longrightarrow> cached s (ident data) m p = None) \<longrightarrow>
        (\<exists>out. returned (normalizeArray data m p z s) = Some out) \<and>
        (elems data \<noteq> [] \<and> m = 0 \<longrightarrow>
           returned (normalizeArray data m p z s) = Some [Number NaN]) \<and>
        (elems data = [] \<and> 1 \<le> m \<longrightarrow>
           (\<exists>out. returned (normalizeArray data m p z s) = Some out \<and> length out = nat m \<and>
              (\<forall>v\<in>set out. v = Undefined \<or> v = Number NaN))))"
proof (intro impI conjI)
  assume "0 \<le> m \<and> m \<le> 2 ^ 32 - 1"
  then show "\<exists>r. fst (normalizeArray data m p z s) = Inr r"
    using body_nonnegative [of m "elems data" p]
    by (auto simp: normalizeArray_fst split: option.splits)
next
  assume b: "0 \<le> m \<and> m \<le> 2 ^ 32 - 1" and miss: "z \<longrightarrow> cached s (ident data) m p = None"
  obtain out where "normalizeArray_body (elems data) m p = Inr out"
    using b body_nonnegative [of m "elems data" p] by auto
  with miss have "returned (normalizeArray data m p z s) = Some out"
    by (rule returned_miss)
  then show "\<exists>out. returned (normalizeArray data m p z s) = Some out" by blast
next
  assume miss: "z \<longrightarrow> cached s (ident data) m p = None" and "elems data \<noteq> [] \<and> m = 0"
  then have "normalizeArray_body (elems data) m p = Inr [Number NaN]"
    by (simp add: normalize_zero)
  with miss show "returned (normalizeArray data m p z s) = Some [Number NaN]"
    by (rule returned_miss)
next
  assume b: "0 \<le> m \<and> m \<le> 2 ^ 32 - 1"
    and miss: "z \<longrightarrow> cached s (ident data) m p = None" and e: "elems data = [] \<and> 1 \<le> m"
  let ?out = "map (upsample_value [] m) [0..<nat m]"
  have "normalizeArray_body (elems data) m p = Inr ?out"
    using e b by (simp add: normalize_upsample)
  with miss have "returned (normalizeArray data m p z s) = Some ?out"
    by (rule returned_miss)
  moreover have "\<forall>v\<in>set ?out. v = Undefined \<or> v = Number NaN"
    using upsample_value_empty by auto
  ultimately show "\<exists>out. returned (normalizeArray data m p z s) = Some out \<and> length out = nat m \<and>
              (\<forall>v\<in>set out. v = Undefined \<or> v = Number NaN)"
    by simp
qed

theorem normalizeArray_total_witness:
  "returned (normalizeArray \<lparr>ident = 0, elems = [Fin 2, Fin 3]\<rparr> 0 True True initial) = Some [Number NaN] \<and>
   (\<exists>out. returned (normalizeArray \<lparr>ident = 0, elems = []\<rparr> 3 False True initial) = Some out \<and>
      length out = 3)"
  using normalizeArray_total [of 0 "\<lparr>ident = 0, elems = [Fin 2, Fin 3]\<rparr>" True True initial]
        normalizeArray_total [of 3 "\<lparr>ident = 0, elems = []\<rparr>" False True initial]
  by (auto simp: cached_initial)


text \<open>
  The claim as written fails on the code: \<open>m = 2^32\<close> is an integer \<open>\<ge> 0\<close>, and
  \<^verbatim>\<open>new Array(4294967296)\<close> raises \<^verbatim>\<open>RangeError\<close>.
\<close>

theorem normalizeArray_total_counterexample:
  "(0::int) \<le> 4294967296 \<and>
   fst (normalizeArray \<lparr>ident = 0, elems = [Fin 1]\<rparr> 4294967296 False False initial) = Inl RangeError \<and>
   returned (normalizeArray \<lparr>ident = 0, elems = [Fin 1]\<rparr> 4294967296 False False initial) = None"
proof -
  have "normalizeArray_body [Fin 1] 4294967296 False = Inl RangeError"
    by (simp add: body_range_error)
  then have "fst (normalizeArray \<lparr>ident = 0, elems = [Fin 1]\<rparr> 4294967296 False False initial) = Inl RangeError"
    by (simp add: returned_error)
  then show ?thesis by (simp add: returned_def)
qed

end
